theory Spec2Isabelle
  imports Complex_Main "HOL-Library.Log_Nat"
begin

section \<open>Python values and the arithmetic of the formulas\<close>

text \<open>
  A record of \<open>dashboard.py\<close> is a Python \<open>dict\<close> from field names to values. The values
  the formulas can meet are integers (unbounded), floats, the float NaN and strings (the
  non-numeric columns of the data source). A finite float is modelled by the rational number
  it denotes. Every float operation rounds its exact result to the nearest binary64 number,
  ties to even (\<open>fl\<close>); the exponent range is taken to be unbounded, so overflow (an
  OverflowError, or a result of infinity), subnormal numbers and the sign of zero are
  outside this model: the results below are about values within the range of the floats.
\<close>

datatype pyval = PInt int | PFloat rat | NaN | PStr string

datatype pyerr = KeyError | ZeroDivisionError | TypeError | ValueError

definition expo :: "rat \<Rightarrow> int" where
  \<comment> \<open>the binary exponent \<open>e\<close> of a non-zero number: \<open>2^e \<le> |x| < 2^(e+1)\<close>\<close>
  "expo x =
     (let (p, q) = quotient_of \<bar>x\<bar>;
          d = bitlen p - bitlen q
      in if 2 powi d \<le> \<bar>x\<bar> then d else d - 1)"

definition round_even :: "rat \<Rightarrow> int" where
  "round_even q =
     (let f = \<lfloor>q\<rfloor>; r = q - of_int f
      in if r < 1 / 2 then f
         else if 1 / 2 < r then f + 1
         else if even f then f else f + 1)"

definition fl :: "rat \<Rightarrow> rat" where
  \<comment> \<open>round to 53 significant bits, nearest, ties to even\<close>
  "fl x = (if x = 0 then 0
           else let u = 2 powi (expo x - 52) in of_int (round_even (x / u)) * u)"

fun to_float :: "pyval \<Rightarrow> rat" where
  \<comment> \<open>\<open>float(v)\<close> for an int or a finite float\<close>
  "to_float (PInt i) = fl (of_int i)"
| "to_float (PFloat x) = x"
| "to_float _ = 0"

fun float_op :: "(rat \<Rightarrow> rat \<Rightarrow> rat) \<Rightarrow> pyval \<Rightarrow> pyval \<Rightarrow> pyerr + pyval" where
  "float_op f (PStr s) b = Inl TypeError"
| "float_op f a (PStr t) = Inl TypeError"
| "float_op f NaN b = Inr NaN"
| "float_op f a NaN = Inr NaN"
| "float_op f a b = Inr (PFloat (fl (f (to_float a) (to_float b))))"

fun py_add :: "pyval \<Rightarrow> pyval \<Rightarrow> pyerr + pyval" where
  "py_add (PInt i) (PInt j) = Inr (PInt (i + j))"
| "py_add (PStr s) (PStr t) = Inr (PStr (s @ t))"
| "py_add a b = float_op (+) a b"

fun py_sub :: "pyval \<Rightarrow> pyval \<Rightarrow> pyerr + pyval" where
  "py_sub (PInt i) (PInt j) = Inr (PInt (i - j))"
| "py_sub a b = float_op (-) a b"

fun py_mul :: "pyval \<Rightarrow> pyval \<Rightarrow> pyerr + pyval" where
  "py_mul (PInt i) (PInt j) = Inr (PInt (i * j))"
| "py_mul (PStr s) (PInt n) = Inr (PStr (concat (replicate (nat n) s)))"
| "py_mul (PInt n) (PStr s) = Inr (PStr (concat (replicate (nat n) s)))"
| "py_mul a b = float_op (*) a b"

fun is_zero :: "pyval \<Rightarrow> bool" where
  "is_zero (PInt i) = (i = 0)"
| "is_zero (PFloat x) = (x = 0)"
| "is_zero _ = False"

fun py_truediv :: "pyval \<Rightarrow> pyval \<Rightarrow> pyerr + pyval" where
  "py_truediv (PStr s) b = Inl TypeError"
| "py_truediv a (PStr t) = Inl TypeError"
| "py_truediv (PInt i) (PInt j) =
     (if j = 0 then Inl ZeroDivisionError else Inr (PFloat (fl (of_int i / of_int j))))"
| "py_truediv a b = (if is_zero b then Inl ZeroDivisionError else float_op (/) a b)"

fun str_gt :: "string \<Rightarrow> string \<Rightarrow> bool" where
  "str_gt [] t = False"
| "str_gt (c # cs) [] = True"
| "str_gt (c # cs) (d # ds) =
     (if (of_char d :: nat) < of_char c then True
      else if c = d then str_gt cs ds else False)"

fun py_gt :: "pyval \<Rightarrow> pyval \<Rightarrow> pyerr + bool" where
  \<comment> \<open>\<open>a > b\<close>: numbers are compared exactly, NaN compares false, strings lexicographically\<close>
  "py_gt (PStr s) (PStr t) = Inr (str_gt s t)"
| "py_gt (PStr s) b = Inl TypeError"
| "py_gt a (PStr t) = Inl TypeError"
| "py_gt NaN b = Inr False"
| "py_gt a NaN = Inr False"
| "py_gt (PInt i) (PInt j) = Inr (j < i)"
| "py_gt (PInt i) (PFloat y) = Inr (y < of_int i)"
| "py_gt (PFloat x) (PInt j) = Inr (of_int j < x)"
| "py_gt (PFloat x) (PFloat y) = Inr (y < x)"

definition py_max :: "pyval \<Rightarrow> pyval \<Rightarrow> pyerr + pyval" where
  \<comment> \<open>the builtin \<open>max(a, b)\<close>: keeps \<open>a\<close> unless \<open>b > a\<close>\<close>
  "py_max a b = (case py_gt b a of Inl e \<Rightarrow> Inl e | Inr g \<Rightarrow> Inr (if g then b else a))"

fun py_sum_from :: "pyval \<Rightarrow> pyval list \<Rightarrow> pyerr + pyval" where
  "py_sum_from acc [] = Inr acc"
| "py_sum_from acc (v # vs) =
     (case py_add acc v of Inl e \<Rightarrow> Inl e | Inr acc' \<Rightarrow> py_sum_from acc' vs)"

definition py_sum :: "pyval list \<Rightarrow> pyerr + pyval" where
  \<comment> \<open>the builtin \<open>sum(xs)\<close>: starts from the int 0 and adds from left to right, each float
      addition rounded (CPython 3.12 and later compensate the rounding errors of a float sum;
      the sums of whole numbers considered below are exact either way)\<close>
  "py_sum vs = py_sum_from (PInt 0) vs"

fun math_ceil :: "pyval \<Rightarrow> pyerr + pyval" where
  "math_ceil (PInt i) = Inr (PInt i)"
| "math_ceil (PFloat x) = Inr (PInt \<lceil>x\<rceil>)"
| "math_ceil NaN = Inl ValueError"
| "math_ceil (PStr s) = Inl TypeError"

definition pow10 :: "int \<Rightarrow> pyval" where
  \<comment> \<open>\<open>10 ** digits\<close>: an int for \<open>digits \<ge> 0\<close>, a float otherwise\<close>
  "pow10 d = (if 0 \<le> d then PInt (10 ^ nat d) else PFloat (fl (10 powi d)))"

definition roundup :: "pyval \<Rightarrow> int \<Rightarrow> pyerr + pyval" where
  "roundup x digits =
     (let factor = pow10 digits
      in case py_mul x factor of Inl e \<Rightarrow> Inl e
         | Inr p \<Rightarrow> (case math_ceil p of Inl e \<Rightarrow> Inl e
                     | Inr c \<Rightarrow> py_truediv c factor))"

section \<open>Formulas\<close>

text \<open>
  The formula strings of \<open>FORMULAS\<close> are kept as their syntax trees. They are built from
  \<open>row['k']\<close>, int and float literals, the four arithmetic operators, \<open>max(a, b)\<close>,
  \<open>sum([...])\<close> and \<open>roundup(a, digits)\<close> with a literal digit count. A float literal carries
  its decimal value and denotes the nearest float.
\<close>

datatype binop = Add | Sub | Mul | Div

datatype expr =
    Row string
  | IntLit int
  | FloatLit rat
  | BinOp binop expr expr
  | Max expr expr
  | SumL "expr list"
  | Roundup expr int

type_synonym row = "string \<rightharpoonup> pyval"

fun apply_binop :: "binop \<Rightarrow> pyval \<Rightarrow> pyval \<Rightarrow> pyerr + pyval" where
  "apply_binop Add = py_add"
| "apply_binop Sub = py_sub"
| "apply_binop Mul = py_mul"
| "apply_binop Div = py_truediv"

fun sequence :: "(pyerr + pyval) list \<Rightarrow> pyerr + pyval list" where
  \<comment> \<open>the values of a list display, or the first exception raised while building it\<close>
  "sequence [] = Inr []"
| "sequence (Inl e # rs) = Inl e"
| "sequence (Inr v # rs) = (case sequence rs of Inl e \<Rightarrow> Inl e | Inr vs \<Rightarrow> Inr (v # vs))"

fun py_eval :: "row \<Rightarrow> expr \<Rightarrow> pyerr + pyval" where
  "py_eval r (Row k) = (case r k of None \<Rightarrow> Inl KeyError | Some v \<Rightarrow> Inr v)"
| "py_eval r (IntLit i) = Inr (PInt i)"
| "py_eval r (FloatLit q) = Inr (PFloat (fl q))"
| "py_eval r (BinOp opr a b) =
     (case py_eval r a of Inl e \<Rightarrow> Inl e
      | Inr x \<Rightarrow> (case py_eval r b of Inl e \<Rightarrow> Inl e | Inr y \<Rightarrow> apply_binop opr x y))"
| "py_eval r (Max a b) =
     (case py_eval r a of Inl e \<Rightarrow> Inl e
      | Inr x \<Rightarrow> (case py_eval r b of Inl e \<Rightarrow> Inl e | Inr y \<Rightarrow> py_max x y))"
| "py_eval r (SumL es) =
     (case sequence (map (py_eval r) es) of Inl e \<Rightarrow> Inl e | Inr vs \<Rightarrow> py_sum vs)"
| "py_eval r (Roundup a d) =
     (case py_eval r a of Inl e \<Rightarrow> Inl e | Inr x \<Rightarrow> roundup x d)"

section \<open>The registry and the evaluation engine\<close>

text \<open>\<open>FORMULAS\<close>, in the order of the dict literal (a Python dict keeps insertion order).\<close>

definition FORMULAS :: "(string \<times> expr) list" where
  "FORMULAS =
    [(''in_avg_wt_cn'',
      BinOp Div (Row ''in_ndx_vol_wt'') (Row ''in_ndx_out_vol'')),
     (''out_avg_wt_cn'',
      BinOp Div (Row ''out_ndx_vol_wt'') (Row ''out_ndx_out_vol'')),
     (''packet'',
      BinOp Div (Max (Row ''in_docs'') (Row ''out_docs'')) (IntLit 15)),
     (''bag_doc'',
      BinOp Div (BinOp Div (Max (Row ''in_docs'') (Row ''out_docs'')) (IntLit 15)) (IntLit 15)),
     (''vol_bag_non_doc'',
      BinOp Div (Max (Row ''in_ndx_out_vol'') (Row ''out_ndx_out_vol'')) (IntLit 13)),
     (''wt_bag_non_doc'',
      BinOp Div (Max (Row ''in_ndx_vol_wt'') (Row ''out_ndx_vol_wt'')) (IntLit 25)),
     (''out_per_day_docs'',
      Roundup (BinOp Div (Row ''out_docs'') (IntLit 25)) 0),
     (''out_per_day_non_docs'',
      Roundup (BinOp Div (Row ''out_non_docs'') (IntLit 25)) 0),
     (''out_per_day_air'',
      Roundup (BinOp Div (Row ''out_air'') (IntLit 25)) 0),
     (''out_per_day_surface'',
      Roundup (BinOp Div (Row ''out_surface'') (IntLit 25)) 0),
     (''out_per_day_ndx_out_vol'',
      Roundup (BinOp Div (Row ''out_ndx_out_vol'') (IntLit 25)) 0),
     (''out_per_day_ndx_vol_wt'',
      Roundup (BinOp Div (Row ''out_ndx_vol_wt'') (IntLit 25)) 0),
     (''in_per_day_docs'',
      Roundup (BinOp Div (Row ''in_docs'') (IntLit 25)) 0),
     (''in_per_day_non_docs'',
      Roundup (BinOp Div (Row ''in_non_docs'') (IntLit 25)) 0),
     (''in_per_day_air'',
      Roundup (BinOp Div (Row ''in_air'') (IntLit 25)) 0),
     (''in_per_day_surface'',
      Roundup (BinOp Div (Row ''in_surface'') (IntLit 25)) 0),
     (''in_per_day_ndx_out_vol'',
      Roundup (BinOp Div (Row ''in_ndx_out_vol'') (IntLit 25)) 0),
     (''in_per_day_ndx_vol_wt'',
      Roundup (BinOp Div (Row ''in_ndx_vol_wt'') (IntLit 25)) 0),
     (''per_day_ndx'',
      Max (Row ''out_per_day_non_docs'') (Row ''in_per_day_non_docs'')),
     (''per_day_dox'',
      Max (Row ''out_per_day_docs'') (Row ''in_per_day_docs'')),
     (''per_day_packet'',
      BinOp Div (Row ''packet'') (IntLit 25)),
     (''per_day_bag_doc'',
      BinOp Div (Row ''bag_doc'') (IntLit 25)),
     (''per_day_bag_non_doc'',
      BinOp Div (Max (Row ''vol_bag_non_doc'') (Row ''wt_bag_non_doc'')) (IntLit 25)),
     (''per_day_air'',
      BinOp Div (Row ''out_per_day_air'') (IntLit 12)),
     (''cd_unit'',
      BinOp Div (BinOp Mul (BinOp Add (Row ''per_day_bag_doc'') (Row ''per_day_bag_non_doc'')) (IntLit 35)) (IntLit 3600)),
     (''with_sorter_sorter_unit'',
      BinOp Div (BinOp Mul (BinOp Mul (FloatLit (504 / 25)) (Row ''per_day_ndx'')) (FloatLit (11 / 20))) (IntLit 3600)),
     (''with_sorter_non_cony'',
      BinOp Div (BinOp Mul (BinOp Mul (Row ''with_sorter_sorter_unit'') (FloatLit (3 / 10))) (FloatLit (3 / 2))) (FloatLit (11 / 20))),
     (''manual_sorting_units'',
      BinOp Div (BinOp Mul (Row ''per_day_ndx'') (FloatLit (311 / 10))) (IntLit 3600)),
     (''xray_unit'',
      BinOp Div (BinOp Mul (Row ''per_day_air'') (IntLit 15)) (IntLit 3600)),
     (''air_unit'',
      BinOp Div (BinOp Mul (Row ''per_day_air'') (IntLit 38)) (IntLit 3600)),
     (''surface_unit'',
      BinOp Div (BinOp Mul (BinOp Sub (BinOp Add (Row ''per_day_bag_doc'') (Row ''per_day_bag_non_doc'')) (Row ''per_day_air'')) (IntLit 38)) (IntLit 3600)),
     (''doc_unit'',
      BinOp Div (BinOp Mul (BinOp Mul (FloatLit (3 / 5)) (Row ''per_day_dox'')) (FloatLit (501111111 / 50000000))) (IntLit 3600)),
     (''exception_han_unit'',
      BinOp Div (BinOp Mul (BinOp Mul (FloatLit (1 / 20)) (IntLit 30)) (Row ''per_day_ndx'')) (IntLit 3600)),
     (''skidder_unit'',
      BinOp Mul (FloatLit (1 / 10)) (SumL [Row ''cd_unit'',
        Row ''with_sorter_sorter_unit'',
        Row ''with_sorter_non_cony'',
        Row ''manual_sorting_units'',
        Row ''xray_unit'',
        Row ''air_unit'',
        Row ''surface_unit'',
        Row ''doc_unit'',
        Row ''exception_han_unit''])),
     (''total'',
      BinOp Mul (FloatLit (6 / 5)) (BinOp Sub (SumL [Row ''cd_unit'',
        Row ''with_sorter_sorter_unit'',
        Row ''with_sorter_non_cony'',
        Row ''manual_sorting_units'',
        Row ''skidder_unit'',
        Row ''xray_unit'',
        Row ''air_unit'',
        Row ''surface_unit'',
        Row ''doc_unit'',
        Row ''exception_han_unit'']) (Row ''manual_sorting_units''))),
     (''manpower_in_units_cd_unit'',
      Roundup (BinOp Div (BinOp Mul (Row ''cd_unit'') (FloatLit (5 / 4))) (Row ''at'')) 0),
     (''manpower_in_units_with_sorter_sorter_unit'',
      Roundup (BinOp Div (BinOp Mul (Row ''with_sorter_sorter_unit'') (FloatLit (5 / 4))) (Row ''at'')) 0),
     (''manpower_in_units_with_sorter_non_cony'',
      Roundup (BinOp Div (BinOp Mul (Row ''with_sorter_non_cony'') (FloatLit (5 / 4))) (Row ''at'')) 0),
     (''manpower_in_units_with_no_sorter_manual_sorting_units'',
      Roundup (BinOp Div (BinOp Mul (Row ''manual_sorting_units'') (FloatLit (5 / 4))) (Row ''at'')) 0),
     (''manpower_in_units_skidder_unit'',
      Roundup (BinOp Div (BinOp Mul (Row ''skidder_unit'') (FloatLit (5 / 4))) (Row ''at'')) 0),
     (''manpower_in_units_xray_unit'',
      Roundup (BinOp Div (BinOp Mul (Row ''xray_unit'') (FloatLit (5 / 4))) (Row ''at'')) 0),
     (''manpower_in_units_air_unit'',
      Roundup (BinOp Div (BinOp Mul (Row ''air_unit'') (FloatLit (5 / 4))) (Row ''at'')) 0),
     (''manpower_in_units_surface_unit'',
      Roundup (BinOp Div (BinOp Mul (Row ''surface_unit'') (FloatLit (5 / 4))) (Row ''at'')) 0),
     (''manpower_in_units_doc_unit'',
      Roundup (BinOp Div (BinOp Mul (Row ''doc_unit'') (FloatLit (5 / 4))) (Row ''at'')) 0),
     (''manpower_in_units_exception_han_unit'',
      Roundup (BinOp Div (BinOp Mul (Row ''exception_han_unit'') (FloatLit (5 / 4))) (Row ''at'')) 0),
     (''manpower_with_sorter'',
      BinOp Sub (SumL [Row ''manpower_in_units_cd_unit'',
        Row ''manpower_in_units_with_sorter_sorter_unit'',
        Row ''manpower_in_units_with_sorter_non_cony'',
        Row ''manpower_in_units_with_no_sorter_manual_sorting_units'',
        Row ''manpower_in_units_skidder_unit'',
        Row ''manpower_in_units_xray_unit'',
        Row ''manpower_in_units_air_unit'',
        Row ''manpower_in_units_surface_unit'',
        Row ''manpower_in_units_doc_unit'',
        Row ''manpower_in_units_exception_han_unit'']) (Row ''manpower_in_units_with_no_sorter_manual_sorting_units'')),
     (''manpower_without_sorter'',
      BinOp Sub (BinOp Sub (SumL [Row ''manpower_in_units_cd_unit'',
        Row ''manpower_in_units_with_sorter_sorter_unit'',
        Row ''manpower_in_units_with_sorter_non_cony'',
        Row ''manpower_in_units_with_no_sorter_manual_sorting_units'',
        Row ''manpower_in_units_skidder_unit'',
        Row ''manpower_in_units_xray_unit'',
        Row ''manpower_in_units_air_unit'',
        Row ''manpower_in_units_surface_unit'',
        Row ''manpower_in_units_doc_unit'',
        Row ''manpower_in_units_exception_han_unit'']) (Row ''manpower_in_units_with_sorter_sorter_unit'')) (Row ''manpower_in_units_with_sorter_non_cony''))]"

definition BASE_INPUT_FIELDS :: "string list" where
  "BASE_INPUT_FIELDS =
    [''out_docs'', ''out_non_docs'', ''out_air'', ''out_surface'', ''out_ndx_out_vol'',
     ''out_ndx_vol_wt'', ''in_docs'', ''in_non_docs'', ''in_air'', ''in_surface'',
     ''in_ndx_out_vol'', ''in_ndx_vol_wt'', ''sorter'', ''at'']"

definition catch :: "pyerr + pyval \<Rightarrow> pyval" where
  \<comment> \<open>\<open>try: v = eval(...)\<close> / \<open>except Exception: v = float('nan')\<close>\<close>
  "catch res = (case res of Inl e \<Rightarrow> NaN | Inr v \<Rightarrow> v)"

definition step :: "string set \<Rightarrow> row \<Rightarrow> string \<times> expr \<Rightarrow> row" where
  \<comment> \<open>one iteration of the loop over \<open>FORMULAS.items()\<close>\<close>
  "step locked r ke =
     (case ke of (key, e) \<Rightarrow>
        if key \<in> locked then r else r(key \<mapsto> catch (py_eval r e)))"

definition run :: "(string \<times> expr) list \<Rightarrow> string set \<Rightarrow> row \<Rightarrow> row" where
  "run forms locked r = foldl (step locked) r forms"

definition locked_set :: "string list option \<Rightarrow> string set" where
  \<comment> \<open>\<open>set(locked_keys or [])\<close>\<close>
  "locked_set locked_keys = (case locked_keys of None \<Rightarrow> {} | Some ks \<Rightarrow> set ks)"

definition compute_derived :: "row \<Rightarrow> string list option \<Rightarrow> row" where
  "compute_derived r locked_keys = run FORMULAS (locked_set locked_keys) r"

definition registry_keys :: "string list" where
  "registry_keys = map fst FORMULAS"

definition set_formula :: "string \<Rightarrow> expr \<Rightarrow> (string \<times> expr) list \<Rightarrow> (string \<times> expr) list" where
  \<comment> \<open>the registry with the formula of key \<open>k\<close> replaced by \<open>e'\<close>\<close>
  "set_formula k e' forms = map (\<lambda>(k', e). (k', if k' = k then e' else e)) forms"

section \<open>Field references and registry order\<close>

fun refs :: "expr \<Rightarrow> string list" where
  \<comment> \<open>the fields \<open>row['k']\<close> a formula reads\<close>
  "refs (Row k) = [k]"
| "refs (IntLit i) = []"
| "refs (FloatLit q) = []"
| "refs (BinOp opr a b) = refs a @ refs b"
| "refs (Max a b) = refs a @ refs b"
| "refs (SumL es) = concat (map refs es)"
| "refs (Roundup a d) = refs a"

fun dependency_ordered :: "(string \<times> expr) list \<Rightarrow> bool" where
  \<comment> \<open>no formula reads its own key or the key of a later entry, and no key is repeated\<close>
  "dependency_ordered [] = True"
| "dependency_ordered ((k, e) # rest) =
     (k \<notin> set (refs e) \<and> k \<notin> set (map fst rest)
      \<and> list_all (\<lambda>f. f \<notin> set (map fst rest)) (refs e)
      \<and> dependency_ordered rest)"

definition manpower_units :: "string list" where
  \<comment> \<open>the ten intermediates summed by both staffing totals, in the order of the formulas\<close>
  "manpower_units =
    [''manpower_in_units_cd_unit'', ''manpower_in_units_with_sorter_sorter_unit'',
     ''manpower_in_units_with_sorter_non_cony'',
     ''manpower_in_units_with_no_sorter_manual_sorting_units'',
     ''manpower_in_units_skidder_unit'', ''manpower_in_units_xray_unit'',
     ''manpower_in_units_air_unit'', ''manpower_in_units_surface_unit'',
     ''manpower_in_units_doc_unit'', ''manpower_in_units_exception_han_unit'']"

definition count_of :: "row \<Rightarrow> string \<Rightarrow> int" where
  \<comment> \<open>the whole number stored in a field (0 when the field holds no number)\<close>
  "count_of r k =
     (case r k of Some (PFloat x) \<Rightarrow> \<lfloor>x\<rfloor> | Some (PInt i) \<Rightarrow> i | _ \<Rightarrow> 0)"

definition scenario_A :: row where
  \<comment> \<open>the base inputs of Scenario A of the specification\<close>
  "scenario_A =
    [''out_docs'' \<mapsto> PInt 100, ''out_non_docs'' \<mapsto> PInt 200, ''in_docs'' \<mapsto> PInt 50,
     ''in_non_docs'' \<mapsto> PInt 150, ''out_air'' \<mapsto> PInt 40, ''out_surface'' \<mapsto> PInt 160,
     ''in_air'' \<mapsto> PInt 20, ''in_surface'' \<mapsto> PInt 130, ''out_ndx_out_vol'' \<mapsto> PInt 300,
     ''out_ndx_vol_wt'' \<mapsto> PInt 900, ''in_ndx_out_vol'' \<mapsto> PInt 250,
     ''in_ndx_vol_wt'' \<mapsto> PInt 750, ''sorter'' \<mapsto> PInt 1, ''at'' \<mapsto> PInt 20]"

definition zero_out_volume :: row where
  \<comment> \<open>a record with volume and weight figures only, the outbound volume being zero\<close>
  "zero_out_volume =
    [''in_ndx_vol_wt'' \<mapsto> PInt 750, ''in_ndx_out_vol'' \<mapsto> PInt 250,
     ''out_ndx_vol_wt'' \<mapsto> PInt 900, ''out_ndx_out_vol'' \<mapsto> PInt 0]"

section \<open>Which keys a missing field turns into NaN\<close>

fun reads_missing :: "string list \<Rightarrow> expr \<Rightarrow> bool" where
  \<comment> \<open>the formula reads a field of \<open>M\<close>: if those fields are absent it raises KeyError\<close>
  "reads_missing M (Row k) = (k \<in> set M)"
| "reads_missing M (IntLit i) = False"
| "reads_missing M (FloatLit q) = False"
| "reads_missing M (BinOp opr a b) = (reads_missing M a \<or> reads_missing M b)"
| "reads_missing M (Max a b) = (reads_missing M a \<or> reads_missing M b)"
| "reads_missing M (SumL es) = list_ex (reads_missing M) es"
| "reads_missing M (Roundup a d) = reads_missing M a"

fun poisoned :: "string list \<Rightarrow> string list \<Rightarrow> expr \<Rightarrow> bool" where
  \<comment> \<open>with the fields of \<open>M\<close> absent and those of \<open>N\<close> NaN, the formula raises or yields NaN;
      the second argument of \<open>max\<close> only counts when it raises\<close>
  "poisoned M N (Row k) = (k \<in> set M \<or> k \<in> set N)"
| "poisoned M N (IntLit i) = False"
| "poisoned M N (FloatLit q) = False"
| "poisoned M N (BinOp opr a b) = (poisoned M N a \<or> poisoned M N b)"
| "poisoned M N (Max a b) = (poisoned M N a \<or> reads_missing M b)"
| "poisoned M N (SumL es) = list_ex (poisoned M N) es"
| "poisoned M N (Roundup a d) = poisoned M N a"

fun nan_keys :: "(string \<times> expr) list \<Rightarrow> string list \<Rightarrow> string list \<Rightarrow> string list" where
  \<comment> \<open>the keys known to hold NaN after the entries, starting from absent \<open>M\<close> and NaN \<open>N\<close>\<close>
  "nan_keys [] M N = N"
| "nan_keys ((k, e) # fs) M N =
     nan_keys fs (removeAll k M) (if poisoned M N e then k # N else removeAll k N)"

section \<open>The namespace of \<open>eval\<close>\<close>

text \<open>
  \<open>eval(expr, safe_globals, {'row': row})\<close> resolves a name in the locals, then in the
  globals, then in the builtins. When the globals it is given have no key \<open>__builtins__\<close>,
  \<open>eval\<close> inserts the interpreter's builtins under that key before it evaluates.
\<close>

datatype pyobj = RowDict | FnRoundup | FnMax | FnSum | BuiltinsDict | Builtin string

definition safe_globals :: "string \<rightharpoonup> pyobj" where
  "safe_globals = [''roundup'' \<mapsto> FnRoundup, ''max'' \<mapsto> FnMax, ''sum'' \<mapsto> FnSum]"

definition eval_locals :: "string \<rightharpoonup> pyobj" where
  "eval_locals = [''row'' \<mapsto> RowDict]"

definition eval_globals :: "(string \<rightharpoonup> pyobj) \<Rightarrow> (string \<rightharpoonup> pyobj)" where
  \<comment> \<open>the globals as \<open>eval\<close> uses them\<close>
  "eval_globals g = (case g ''__builtins__'' of None \<Rightarrow> g(''__builtins__'' \<mapsto> BuiltinsDict)
                     | Some b \<Rightarrow> g)"

definition builtin_names :: "string list" where
  \<comment> \<open>the names bound in the module \<open>builtins\<close> of CPython 3.11\<close>
  "builtin_names =
    [''ArithmeticError'', ''AssertionError'', ''AttributeError'', ''BaseException'',
     ''BaseExceptionGroup'', ''BlockingIOError'', ''BrokenPipeError'', ''BufferError'',
     ''BytesWarning'', ''ChildProcessError'', ''ConnectionAbortedError'',
     ''ConnectionError'', ''ConnectionRefusedError'', ''ConnectionResetError'',
     ''DeprecationWarning'', ''EOFError'', ''Ellipsis'', ''EncodingWarning'',
     ''EnvironmentError'', ''Exception'', ''ExceptionGroup'', ''FileExistsError'',
     ''FileNotFoundError'', ''FloatingPointError'', ''FutureWarning'',
     ''GeneratorExit'', ''IOError'', ''ImportError'', ''ImportWarning'',
     ''IndentationError'', ''IndexError'', ''InterruptedError'', ''IsADirectoryError'',
     ''KeyError'', ''KeyboardInterrupt'', ''LookupError'', ''MemoryError'',
     ''ModuleNotFoundError'', ''NameError'', ''NotADirectoryError'', ''NotImplemented'',
     ''NotImplementedError'', ''OSError'', ''OverflowError'',
     ''PendingDeprecationWarning'', ''PermissionError'', ''ProcessLookupError'',
     ''RecursionError'', ''ReferenceError'', ''ResourceWarning'', ''RuntimeError'',
     ''RuntimeWarning'', ''StopAsyncIteration'', ''StopIteration'', ''SyntaxError'',
     ''SyntaxWarning'', ''SystemError'', ''SystemExit'', ''TabError'', ''TimeoutError'',
     ''TypeError'', ''UnboundLocalError'', ''UnicodeDecodeError'',
     ''UnicodeEncodeError'', ''UnicodeError'', ''UnicodeTranslateError'',
     ''UnicodeWarning'', ''UserWarning'', ''ValueError'', ''Warning'',
     ''ZeroDivisionError'', ''__build_class__'', ''__doc__'', ''__import__'',
     ''__loader__'', ''__name__'', ''__package__'', ''__spec__'', ''abs'', ''aiter'',
     ''all'', ''anext'', ''any'', ''ascii'', ''bin'', ''bool'', ''breakpoint'',
     ''bytearray'', ''bytes'', ''callable'', ''chr'', ''classmethod'', ''compile'',
     ''complex'', ''copyright'', ''credits'', ''delattr'', ''dict'', ''dir'',
     ''divmod'', ''enumerate'', ''eval'', ''exec'', ''exit'', ''filter'', ''float'',
     ''format'', ''frozenset'', ''getattr'', ''globals'', ''hasattr'', ''hash'',
     ''help'', ''hex'', ''id'', ''input'', ''int'', ''isinstance'', ''issubclass'',
     ''iter'', ''len'', ''license'', ''list'', ''locals'', ''map'', ''max'',
     ''memoryview'', ''min'', ''next'', ''object'', ''oct'', ''open'', ''ord'', ''pow'',
     ''print'', ''property'', ''quit'', ''range'', ''repr'', ''reversed'', ''round'',
     ''set'', ''setattr'', ''slice'', ''sorted'', ''staticmethod'', ''str'', ''sum'',
     ''super'', ''tuple'', ''type'', ''vars'', ''zip'']"

definition load_name :: "(string \<rightharpoonup> pyobj) \<Rightarrow> (string \<rightharpoonup> pyobj) \<Rightarrow> string \<Rightarrow> pyobj option" where
  "load_name l g n =
     (case l n of Some b \<Rightarrow> Some b
      | None \<Rightarrow> (case g n of Some b \<Rightarrow> Some b
         | None \<Rightarrow> (case g ''__builtins__'' of
              Some BuiltinsDict \<Rightarrow>
                if n = ''max'' then Some FnMax else if n = ''sum'' then Some FnSum
                else if n \<in> set builtin_names then Some (Builtin n) else None
            | _ \<Rightarrow> None)))"

definition resolve :: "string \<Rightarrow> pyobj option" where
  \<comment> \<open>name lookup during the evaluation of a formula by \<open>compute_derived\<close>\<close>
  "resolve n = load_name eval_locals (eval_globals safe_globals) n"

fun names :: "expr \<Rightarrow> string list" where
  \<comment> \<open>the identifiers a formula loads\<close>
  "names (Row k) = [''row'']"
| "names (IntLit i) = []"
| "names (FloatLit q) = []"
| "names (BinOp opr a b) = names a @ names b"
| "names (Max a b) = ''max'' # names a @ names b"
| "names (SumL es) = ''sum'' # concat (map names es)"
| "names (Roundup a d) = ''roundup'' # names a"




section \<open>Rounding to the nearest float\<close>

lemma pos_int_pow_bounds:
  fixes p :: int assumes "0 < p"
  shows "(2::rat) powi (bitlen p - 1) \<le> of_int p" and "of_int p < (2::rat) powi bitlen p"
proof -
  from bitlen_bounds [OF assms] have a: "2 ^ nat (bitlen p - 1) \<le> p" and b: "p < 2 ^ nat (bitlen p)"
    by simp_all
  have bl: "1 \<le> bitlen p" using assms bitlen_eq_zero_iff [of p] bitlen_nonneg [of p] by linarith
  have "(of_int (2 ^ nat (bitlen p - 1)) :: rat) \<le> of_int p" using a by (simp only: of_int_le_iff)
  then show "(2::rat) powi (bitlen p - 1) \<le> of_int p"
    using bl by (simp add: power_int_nonneg_exp)
  have "(of_int p :: rat) < of_int (2 ^ nat (bitlen p))" using b by (simp only: of_int_less_iff)
  then show "of_int p < (2::rat) powi bitlen p"
    using bl by (simp add: power_int_nonneg_exp)
qed

lemma expo_bounds:
  assumes "x \<noteq> 0"
  shows "2 powi expo x \<le> \<bar>x\<bar> \<and> \<bar>x\<bar> < 2 powi (expo x + 1)"
proof -
  obtain p q where pq: "quotient_of \<bar>x\<bar> = (p, q)" by (cases "quotient_of \<bar>x\<bar>")
  have qpos: "0 < q" using quotient_of_denom_pos [OF pq] .
  have xeq: "\<bar>x\<bar> = of_int p / of_int q" using quotient_of_div [OF pq] .
  have "0 < \<bar>x\<bar>" using assms by simp
  then have ppos: "0 < p" using xeq qpos by (simp add: zero_less_divide_iff)
  let ?d = "bitlen p - bitlen q"
  note bp = pos_int_pow_bounds [OF ppos] and bq = pos_int_pow_bounds [OF qpos]
  have qr: "(0::rat) < of_int q" using qpos by simp
  have up: "\<bar>x\<bar> < 2 powi (?d + 1)"
  proof -
    have "of_int p < (2::rat) powi bitlen p" by (rule bp(2))
    also have "\<dots> = 2 powi (?d + 1) * 2 powi (bitlen q - 1)"
      by (simp add: power_int_add [symmetric])
    also have "\<dots> \<le> 2 powi (?d + 1) * of_int q"
      using bq(1) by (simp add: mult_left_mono)
    finally show ?thesis using qr by (simp add: xeq pos_divide_less_eq)
  qed
  have low: "2 powi (?d - 1) \<le> \<bar>x\<bar>"
  proof -
    have "2 powi (?d - 1) * of_int q \<le> 2 powi (?d - 1) * (2::rat) powi bitlen q"
      using bq(2) by (simp add: mult_left_mono)
    also have "\<dots> = 2 powi (bitlen p - 1)"
      by (simp add: power_int_add [symmetric])
    also have "\<dots> \<le> of_int p" by (rule bp(1))
    finally show ?thesis using qr by (simp add: xeq pos_le_divide_eq)
  qed
  show ?thesis
  proof (cases "2 powi ?d \<le> \<bar>x\<bar>")
    case True
    then have "expo x = ?d" by (simp add: expo_def pq)
    then show ?thesis using True up by simp
  next
    case False
    then have "expo x = ?d - 1" by (simp add: expo_def pq)
    then show ?thesis using False low by simp
  qed
qed

lemma pow2_less_iff [simp]: "(2::rat) powi a < 2 powi b \<longleftrightarrow> a < b"
proof
  assume h: "(2::rat) powi a < 2 powi b"
  show "a < b"
  proof (rule ccontr)
    assume "\<not> a < b"
    then have "b \<le> a" by simp
    then have "(2::rat) powi b \<le> 2 powi a" by (rule power_int_increasing) simp
    with h show False by simp
  qed
next
  assume "a < b"
  then show "(2::rat) powi a < 2 powi b" by (rule power_int_strict_increasing) simp
qed

lemma pow2_le_iff [simp]: "(2::rat) powi a \<le> 2 powi b \<longleftrightarrow> a \<le> b"
  using pow2_less_iff [of b a] by (simp only: not_less [symmetric])

lemma expo_unique:
  assumes "2 powi e \<le> \<bar>x\<bar>" "\<bar>x\<bar> < 2 powi (e + 1)"
  shows "expo x = e"
proof -
  have "(0::rat) < \<bar>x\<bar>" using assms(1) zero_less_power_int [of "2::rat" e] by linarith
  then have nz: "x \<noteq> 0" by auto
  from expo_bounds [OF nz] have b1: "2 powi expo x \<le> \<bar>x\<bar>" and b2: "\<bar>x\<bar> < 2 powi (expo x + 1)"
    by simp_all
  have "(2::rat) powi e < 2 powi (expo x + 1)" using assms(1) b2 by (rule le_less_trans)
  then have "e < expo x + 1" by (simp only: pow2_less_iff)
  moreover have "(2::rat) powi expo x < 2 powi (e + 1)" using b1 assms(2) by (rule le_less_trans)
  then have "expo x < e + 1" by (simp only: pow2_less_iff)
  ultimately show ?thesis by simp
qed

lemma fl_eval:
  assumes "2 powi e \<le> \<bar>x\<bar>" "\<bar>x\<bar> < 2 powi (e + 1)"
  shows "fl x = of_int (round_even (x / 2 powi (e - 52))) * 2 powi (e - 52)"
proof -
  have "(0::rat) < \<bar>x\<bar>" using assms(1) zero_less_power_int [of "2::rat" e] by linarith
  then have nz: "x \<noteq> 0" by auto
  show ?thesis using nz expo_unique [OF assms] by (simp add: fl_def Let_def)
qed

lemma round_even_of_int [simp]: "round_even (of_int n) = n"
  by (simp add: round_even_def)

lemma round_even_lower: "of_int a \<le> q \<Longrightarrow> a \<le> round_even q"
proof -
  assume "of_int a \<le> q"
  then have "a \<le> \<lfloor>q\<rfloor>" by (simp add: le_floor_iff)
  then show ?thesis by (simp add: round_even_def Let_def)
qed

lemma round_even_upper: "q \<le> of_int b \<Longrightarrow> round_even q \<le> b"
proof -
  assume h: "q \<le> of_int b"
  have "(of_int \<lfloor>q\<rfloor> :: rat) \<le> of_int b" using h of_int_floor_le [of q] by linarith
  then have f: "\<lfloor>q\<rfloor> \<le> b" by (simp only: of_int_le_iff)
  show ?thesis
  proof (cases "q = of_int \<lfloor>q\<rfloor>")
    case True
    then have "q - of_int \<lfloor>q\<rfloor> = 0" by simp
    then show ?thesis using f by (simp add: round_even_def Let_def)
  next
    case False
    then have "of_int \<lfloor>q\<rfloor> < q" using of_int_floor_le [of q] by linarith
    then have "(of_int \<lfloor>q\<rfloor> :: rat) < of_int b" using h by linarith
    then have "\<lfloor>q\<rfloor> < b" by (simp only: of_int_less_iff)
    then show ?thesis by (simp add: round_even_def Let_def)
  qed
qed

text \<open>Numbers with at most 53 significant bits are not changed by rounding.\<close>

lemma fl_repr:
  assumes "\<bar>m\<bar> < 2 ^ 53"
  shows "fl (of_int m * 2 powi j) = of_int m * 2 powi j"
proof (cases "m = 0")
  case True
  then show ?thesis by (simp add: fl_def)
next
  case False
  let ?x = "of_int m * (2::rat) powi j"
  have nz: "?x \<noteq> 0" using False by simp
  let ?e = "expo ?x"
  from expo_bounds [OF nz] have b1: "2 powi ?e \<le> \<bar>?x\<bar>" by simp
  have "\<bar>?x\<bar> = of_int \<bar>m\<bar> * 2 powi j" by (simp add: abs_mult)
  also have "\<dots> < of_int (2 ^ 53) * 2 powi j"
    using assms by (simp only: of_int_less_iff mult_less_cancel_right_pos zero_less_power_int zero_less_numeral)
  also have "\<dots> = 2 powi (53 + j)" by (simp add: power_int_add)
  finally have "(2::rat) powi ?e < 2 powi (53 + j)" using b1 by linarith
  then have "?e < 53 + j" by (simp only: pow2_less_iff)
  then have k: "0 \<le> j - (?e - 52)" by simp
  have "?x / 2 powi (?e - 52) = of_int m * 2 powi (j - (?e - 52))"
    by (simp add: power_int_diff)
  also have "\<dots> = of_int (m * 2 ^ nat (j - (?e - 52)))"
    using k by (simp add: power_int_nonneg_exp)
  finally have "round_even (?x / 2 powi (?e - 52)) = m * 2 ^ nat (j - (?e - 52))"
    by (simp only: round_even_of_int)
  then have "fl ?x = of_int (m * 2 ^ nat (j - (?e - 52))) * 2 powi (?e - 52)"
    using nz by (simp add: fl_def Let_def)
  also have "\<dots> = of_int m * (2 powi (j - (?e - 52)) * 2 powi (?e - 52))"
    using k by (simp add: power_int_nonneg_exp)
  also have "\<dots> = ?x" by (simp add: power_int_add [symmetric])
  finally show ?thesis .
qed

lemma fl_pow2: "fl (2 powi j) = 2 powi j" and fl_neg_pow2: "fl (- (2 powi j)) = - (2 powi j)"
  using fl_repr [of 1 j] fl_repr [of "-1" j] by simp_all

lemma fl_of_int:
  assumes "\<bar>n\<bar> \<le> 2 ^ 53"
  shows "fl (of_int n) = of_int n"
proof (cases "\<bar>n\<bar> < 2 ^ 53")
  case True
  then show ?thesis using fl_repr [of n 0] by simp
next
  case False
  then have "n = 2 ^ 53 \<or> n = - (2 ^ 53)" using assms by linarith
  then show ?thesis using fl_pow2 [of 53] fl_neg_pow2 [of 53] by auto
qed

lemma fl_mantissa:
  assumes "x \<noteq> 0"
  shows "\<exists>k. fl x = of_int k * 2 powi (expo x - 52) \<and> 2 ^ 52 \<le> \<bar>k\<bar> \<and> \<bar>k\<bar> \<le> 2 ^ 53"
proof -
  let ?u = "(2::rat) powi (expo x - 52)"
  let ?q = "x / ?u"
  let ?k = "round_even ?q"
  have upos: "0 < ?u" by simp
  from expo_bounds [OF assms] have b1: "2 powi expo x \<le> \<bar>x\<bar>" and b2: "\<bar>x\<bar> < 2 powi (expo x + 1)"
    by simp_all
  have e1: "(2::rat) powi expo x = 2 ^ 52 * ?u"
    using power_int_add [of "2::rat" 52 "expo x - 52"] by simp
  have e2: "(2::rat) powi (expo x + 1) = 2 ^ 53 * ?u"
    using power_int_add [of "2::rat" 53 "expo x - 52"] by (simp add: add.commute)
  have aq: "\<bar>?q\<bar> = \<bar>x\<bar> / ?u" by (simp add: abs_divide)
  have q1: "2 ^ 52 \<le> \<bar>?q\<bar>" using b1 upos unfolding aq e1 by (simp add: pos_le_divide_eq)
  have q2: "\<bar>?q\<bar> < 2 ^ 53" using b2 upos unfolding aq e2 by (simp add: pos_divide_less_eq)
  have fx: "fl x = of_int ?k * ?u" using assms by (simp add: fl_def Let_def)
  have "2 ^ 52 \<le> \<bar>?k\<bar> \<and> \<bar>?k\<bar> \<le> 2 ^ 53"
  proof (cases "0 \<le> ?q")
    case True
    then have l: "of_int (2 ^ 52) \<le> ?q" and u: "?q \<le> of_int (2 ^ 53)" using q1 q2 by simp_all
    have "2 ^ 52 \<le> ?k" using l by (rule round_even_lower)
    moreover have "?k \<le> 2 ^ 53" using u by (rule round_even_upper)
    ultimately show ?thesis by simp
  next
    case False
    then have l: "of_int (- (2 ^ 53)) \<le> ?q" and u: "?q \<le> of_int (- (2 ^ 52))" using q1 q2 by simp_all
    have "- (2 ^ 53) \<le> ?k" using l by (rule round_even_lower)
    moreover have "?k \<le> - (2 ^ 52)" using u by (rule round_even_upper)
    ultimately show ?thesis by simp
  qed
  with fx show ?thesis by blast
qed

lemma fl_idem [simp]: "fl (fl x) = fl x"
proof (cases "x = 0")
  case True
  then show ?thesis by (simp add: fl_def)
next
  case False
  from fl_mantissa [OF False] obtain k where
    fx: "fl x = of_int k * 2 powi (expo x - 52)" and k2: "\<bar>k\<bar> \<le> 2 ^ 53" by blast
  show ?thesis
  proof (cases "\<bar>k\<bar> < 2 ^ 53")
    case True
    then show ?thesis unfolding fx by (rule fl_repr)
  next
    case False
    then have "k = 2 ^ 53 \<or> k = - (2 ^ 53)" using k2 by linarith
    moreover have "(2::rat) ^ 53 * 2 powi (expo x - 52) = 2 powi (expo x + 1)"
      using power_int_add [of "2::rat" 53 "expo x - 52"] by (simp add: add.commute)
    ultimately have "fl x = 2 powi (expo x + 1) \<or> fl x = - (2 powi (expo x + 1))"
      unfolding fx by auto
    then show ?thesis using fl_pow2 fl_neg_pow2 by auto
  qed
qed

lemma double_large_is_int:
  assumes "fl x = x" "2 ^ 52 \<le> \<bar>x\<bar>"
  shows "\<exists>n. x = of_int n"
proof -
  have nz: "x \<noteq> 0" using assms(2) by auto
  from fl_mantissa [OF nz] assms(1) obtain k where fx: "x = of_int k * 2 powi (expo x - 52)"
    by auto
  from expo_bounds [OF nz] have "\<bar>x\<bar> < 2 powi (expo x + 1)" by simp
  then have "(2::rat) powi 52 < 2 powi (expo x + 1)" using assms(2) by simp
  then have "52 < expo x + 1" by (simp only: pow2_less_iff)
  then have "0 \<le> expo x - 52" by simp
  then have "(2::rat) powi (expo x - 52) = of_int (2 ^ nat (expo x - 52))"
    by (simp add: power_int_nonneg_exp)
  then have "x = of_int (k * 2 ^ nat (expo x - 52))" using fx by simp
  then show ?thesis by blast
qed

lemma fl_ceiling:
  assumes "fl x = x"
  shows "fl (of_int \<lceil>x\<rceil>) = of_int \<lceil>x\<rceil>"
proof (cases "\<bar>x\<bar> < 2 ^ 52")
  case True
  then have lo: "- (2 ^ 52) < x" and hi: "x < 2 ^ 52" by simp_all
  have "x \<le> of_int (2 ^ 52)" using hi by simp
  then have c1: "\<lceil>x\<rceil> \<le> 2 ^ 52" by (rule ceiling_le)
  have "of_int (- (2 ^ 52)) < x" using lo by simp
  also have "x \<le> of_int \<lceil>x\<rceil>" by (rule le_of_int_ceiling)
  finally have c2: "- (2 ^ 52) < \<lceil>x\<rceil>" by (simp only: of_int_less_iff)
  have "\<And>z::int. z \<le> 2 ^ 52 \<Longrightarrow> - (2 ^ 52) < z \<Longrightarrow> \<bar>z\<bar> \<le> 2 ^ 53" by simp
  from this [OF c1 c2] have "\<bar>\<lceil>x\<rceil>\<bar> \<le> 2 ^ 53" .
  then show ?thesis by (rule fl_of_int)
next
  case False
  then have "2 ^ 52 \<le> \<bar>x\<bar>" by simp
  from double_large_is_int [OF assms this] obtain n where "x = of_int n" by blast
  then show ?thesis using assms by simp
qed

lemma floor_rat_numeral [simp]:
  "\<lfloor>(numeral a :: rat) / numeral b\<rfloor> = numeral a div numeral b"
  "\<lfloor>- (numeral a :: rat) / numeral b\<rfloor> = - numeral a div numeral b"
  using floor_divide_of_int_eq [of "numeral a" "numeral b", where ?'a = rat]
        floor_divide_of_int_eq [of "- numeral a" "numeral b", where ?'a = rat]
  by simp_all

lemma ceiling_rat_numeral [simp]:
  "\<lceil>(numeral a :: rat) / numeral b\<rceil> = - (- numeral a div numeral b)"
  "\<lceil>- (numeral a :: rat) / numeral b\<rceil> = - (numeral a div numeral b)"
  using floor_rat_numeral [of a b] by (simp_all add: ceiling_def)

lemma fl_0 [simp]: "fl 0 = 0"
  by (simp add: fl_def)

lemma fl_1 [simp]: "fl 1 = 1"
  using fl_of_int [of 1] by simp

section \<open>The loop, one entry at a time\<close>

lemma step_other: "k \<noteq> fst ke \<Longrightarrow> step L r ke k = r k"
  by (cases ke) (simp add: step_def)

lemma step_locked: "k \<in> L \<Longrightarrow> step L r ke k = r k"
  by (cases ke) (auto simp: step_def)

lemma step_writes: "k \<notin> L \<Longrightarrow> step L r (k, e) = r(k \<mapsto> catch (py_eval r e))"
  by (simp add: step_def)

lemma run_Nil: "run [] L r = r"
  by (simp add: run_def)

lemma run_Cons: "run (ke # forms) L r = run forms L (step L r ke)"
  by (simp add: run_def)

lemma run_append: "run (pre @ post) L r = run post L (run pre L r)"
  by (simp add: run_def)

lemma run_frame: "k \<notin> fst ` set forms \<Longrightarrow> run forms L r k = r k"
  by (induction forms arbitrary: r) (auto simp: run_Nil run_Cons step_other)

lemma run_locked: "k \<in> L \<Longrightarrow> run forms L r k = r k"
  by (induction forms arbitrary: r) (auto simp: run_Nil run_Cons step_locked)

lemma run_at:
  assumes "k \<notin> L" "k \<notin> fst ` set post"
  shows "run (pre @ (k, e) # post) L r k = Some (catch (py_eval (run pre L r) e))"
  using assms by (simp add: run_append run_Cons run_frame step_writes)

lemma distinct_keys: "distinct (map fst FORMULAS)"
  by (simp add: FORMULAS_def)

lemma split_at_key:
  assumes "(k, e) \<in> set forms" "distinct (map fst forms)"
  shows "forms = takeWhile (\<lambda>ke. fst ke \<noteq> k) forms @ (k, e) # tl (dropWhile (\<lambda>ke. fst ke \<noteq> k) forms)
         \<and> k \<notin> fst ` set (tl (dropWhile (\<lambda>ke. fst ke \<noteq> k) forms))"
  using assms
proof (induction forms)
  case Nil
  then show ?case by simp
next
  case (Cons a forms)
  show ?case
  proof (cases "fst a = k")
    case True
    then have "a = (k, e)" using Cons.prems by (cases a) force
    then show ?thesis using Cons.prems by simp
  next
    case False
    then show ?thesis using Cons by auto
  qed
qed

section \<open>Registry order\<close>

text \<open>A formula depends on the record only through the fields it reads.\<close>

lemma eval_cong:
  "(\<And>k. k \<in> set (refs e) \<Longrightarrow> r k = r' k) \<Longrightarrow> py_eval r e = py_eval r' e"
proof (induction e)
  case (Row k)
  then show ?case by simp
next
  case (BinOp opr a b)
  have "py_eval r a = py_eval r' a" "py_eval r b = py_eval r' b"
    using BinOp by simp_all
  then show ?case by (simp only: py_eval.simps)
next
  case (Max a b)
  have "py_eval r a = py_eval r' a" "py_eval r b = py_eval r' b"
    using Max by simp_all
  then show ?case by (simp only: py_eval.simps)
next
  case (SumL es)
  have "map (py_eval r) es = map (py_eval r') es"
  proof (rule map_cong [OF refl])
    fix x assume x: "x \<in> set es"
    show "py_eval r x = py_eval r' x"
      using SumL.IH [OF x] SumL.prems x by auto
  qed
  then show ?case by (simp only: py_eval.simps)
next
  case (Roundup a d)
  have "py_eval r a = py_eval r' a" using Roundup by simp
  then show ?case by (simp only: py_eval.simps)
qed simp_all

lemma ordered_distinct: "dependency_ordered forms \<Longrightarrow> distinct (map fst forms)"
proof (induction forms)
  case Nil
  then show ?case by simp
next
  case (Cons a forms)
  obtain k e where a: "a = (k, e)" by (cases a)
  have "k \<notin> set (map fst forms)" "dependency_ordered forms"
    using Cons.prems a by simp_all
  then show ?case using Cons.IH a by simp
qed

lemma run_fixpoint:
  assumes "dependency_ordered forms" "(k, e) \<in> set forms" "k \<notin> L"
  shows "run forms L r k = Some (catch (py_eval (run forms L r) e))"
  using assms
proof (induction forms arbitrary: r)
  case Nil
  then show ?case by simp
next
  case (Cons a forms)
  obtain k0 e0 where a: "a = (k0, e0)" by (cases a)
  have ord: "dependency_ordered forms" and k0rest: "k0 \<notin> fst ` set forms"
    and k0self: "k0 \<notin> set (refs e0)"
    and later: "\<And>f. f \<in> set (refs e0) \<Longrightarrow> f \<notin> fst ` set forms"
    using Cons.prems(1) a by (auto simp: list_all_iff)
  show ?case
  proof (cases "(k, e) \<in> set forms")
    case True
    then show ?thesis using Cons.IH [OF ord True Cons.prems(3)] by (simp add: run_Cons)
  next
    case False
    then have ke: "k = k0" "e = e0" using Cons.prems(2) a by auto
    let ?r' = "step L r (k0, e0)"
    let ?R = "run forms L ?r'"
    have r': "?r' = r(k0 \<mapsto> catch (py_eval r e0))"
      using Cons.prems(3) ke by (simp add: step_writes)
    have "?R k0 = ?r' k0" using k0rest by (rule run_frame)
    then have v: "?R k0 = Some (catch (py_eval r e0))" by (simp add: r')
    have "py_eval ?R e0 = py_eval r e0"
    proof (rule eval_cong)
      fix f assume f: "f \<in> set (refs e0)"
      have "?R f = ?r' f" using later [OF f] by (rule run_frame)
      moreover have "f \<noteq> k0" using f k0self by auto
      ultimately show "?R f = r f" by (simp add: r')
    qed
    then show ?thesis using v ke a by (simp add: run_Cons)
  qed
qed

lemma run_stable:
  assumes "\<And>k e. (k, e) \<in> set fs \<Longrightarrow> k \<notin> L \<Longrightarrow> R k = Some (catch (py_eval R e))"
  shows "run fs L R = R"
  using assms
proof (induction fs)
  case Nil
  then show ?case by (simp add: run_Nil)
next
  case (Cons a fs)
  obtain k e where a: "a = (k, e)" by (cases a)
  have "step L R (k, e) = R"
  proof (cases "k \<in> L")
    case True
    then show ?thesis by (simp add: step_def)
  next
    case False
    then have "R k = Some (catch (py_eval R e))" using Cons.prems a by simp
    then show ?thesis using False by (simp add: step_writes fun_upd_idem)
  qed
  then show ?case using Cons a by (simp add: run_Cons)
qed

lemma run_idem:
  assumes "dependency_ordered forms"
  shows "run forms L (run forms L r) = run forms L r"
  by (rule run_stable) (rule run_fixpoint [OF assms])

lemma registry_ordered: "dependency_ordered FORMULAS"
  by (simp add: FORMULAS_def)

section \<open>Fail-soft evaluation\<close>

text \<open>
  Claim C1. \<open>compute_derived\<close> returns a record for every input: the only exceptions of the
  loop body are those of \<open>eval\<close>, and the handler turns each into NaN. Whenever the formula
  of an unlocked entry fails (a missing field, a division by zero, a type mismatch), the
  record after that entry is the record before it with NaN stored under that one key, and
  the key still holds NaN at the end. The evaluation goes on: every later unlocked entry
  holds the value of its own formula on the evaluated record (NaN only if that formula
  fails too), and every earlier key holds what it held when the failing entry was reached.
\<close>

theorem compute_derived_fail_soft:
  assumes "FORMULAS = pre @ (k, e) # post"
    and "k \<notin> locked_set lk"
    and "py_eval (run pre (locked_set lk) r) e = Inl err"
  shows "run (pre @ [(k, e)]) (locked_set lk) r = (run pre (locked_set lk) r)(k \<mapsto> NaN)
       \<and> compute_derived r lk = run post (locked_set lk) ((run pre (locked_set lk) r)(k \<mapsto> NaN))
       \<and> compute_derived r lk k = Some NaN
       \<and> (\<forall>(k', e') \<in> set post. k' \<notin> locked_set lk \<longrightarrow>
             compute_derived r lk k' = Some (catch (py_eval (compute_derived r lk) e')))
       \<and> (\<forall>k0 \<in> fst ` set pre. compute_derived r lk k0 = run pre (locked_set lk) r k0)"
proof -
  let ?L = "locked_set lk"
  have one: "run (pre @ [(k, e)]) ?L r = (run pre ?L r)(k \<mapsto> NaN)"
    using assms(2,3) by (simp add: run_append run_Cons run_Nil step_writes catch_def)
  have "run FORMULAS ?L r = run ((pre @ [(k, e)]) @ post) ?L r"
    using assms(1) by simp
  also have "\<dots> = run post ?L (run (pre @ [(k, e)]) ?L r)"
    by (rule run_append)
  finally have two: "compute_derived r lk = run post ?L ((run pre ?L r)(k \<mapsto> NaN))"
    by (simp only: compute_derived_def one)
  have dist: "distinct (map fst (pre @ (k, e) # post))"
    using distinct_keys assms(1) by simp
  then have "k \<notin> fst ` set post" by auto
  then have three: "compute_derived r lk k = Some NaN"
    using two by (simp add: run_frame)
  have four: "\<forall>(k', e') \<in> set post. k' \<notin> ?L \<longrightarrow>
      compute_derived r lk k' = Some (catch (py_eval (compute_derived r lk) e'))"
  proof (intro ballI, clarify)
    fix k' e' assume p: "(k', e') \<in> set post" and u: "k' \<notin> ?L"
    have "(k', e') \<in> set (pre @ (k, e) # post)" using p by simp
    then have m: "(k', e') \<in> set FORMULAS" by (simp only: assms(1) [symmetric])
    show "compute_derived r lk k' = Some (catch (py_eval (compute_derived r lk) e'))"
      unfolding compute_derived_def using registry_ordered m u by (rule run_fixpoint)
  qed
  have five: "\<forall>k0 \<in> fst ` set pre. compute_derived r lk k0 = run pre ?L r k0"
  proof
    fix k0 assume k0: "k0 \<in> fst ` set pre"
    then have "k0 \<notin> fst ` set ((k, e) # post)" using dist by auto
    then have "run ((k, e) # post) ?L (run pre ?L r) k0 = run pre ?L r k0"
      by (rule run_frame)
    moreover have "run FORMULAS ?L r = run ((k, e) # post) ?L (run pre ?L r)"
      by (simp only: assms(1) run_append)
    ultimately show "compute_derived r lk k0 = run pre ?L r k0"
      by (simp only: compute_derived_def)
  qed
  from one two three four five show ?thesis by blast
qed

lemma eval_failures:
  "py_eval Map.empty (BinOp Div (Row ''out_docs'') (IntLit 25)) = Inl KeyError"
  "py_eval [''at'' \<mapsto> PInt 0, ''cd_unit'' \<mapsto> PFloat 1]
     (BinOp Div (BinOp Mul (Row ''cd_unit'') (FloatLit (5 / 4))) (Row ''at''))
     = Inl ZeroDivisionError"
  "py_eval [''out_docs'' \<mapsto> PStr ''n/a''] (BinOp Div (Row ''out_docs'') (IntLit 25))
     = Inl TypeError"
  by simp_all

text \<open>
  On a record whose outbound volume is zero the second entry fails with a division by zero.
  The first entry keeps its value 3.0, the failing key holds NaN, and the later entry
  \<open>wt_bag_non_doc\<close> is computed: \<open>max(750, 900) / 25 = 36.0\<close>.
\<close>

theorem compute_derived_fail_soft_witness:
  "py_eval (run [(''in_avg_wt_cn'', BinOp Div (Row ''in_ndx_vol_wt'') (Row ''in_ndx_out_vol''))]
              (locked_set None) zero_out_volume)
      (BinOp Div (Row ''out_ndx_vol_wt'') (Row ''out_ndx_out_vol'')) = Inl ZeroDivisionError
   \<and> compute_derived zero_out_volume None ''in_avg_wt_cn'' = Some (PFloat 3)
   \<and> compute_derived zero_out_volume None ''out_avg_wt_cn'' = Some NaN
   \<and> compute_derived zero_out_volume None ''wt_bag_non_doc'' = Some (PFloat 36)"
proof -
  let ?e1 = "BinOp Div (Row ''in_ndx_vol_wt'') (Row ''in_ndx_out_vol'')"
  let ?e2 = "BinOp Div (Row ''out_ndx_vol_wt'') (Row ''out_ndx_out_vol'')"
  let ?e3 = "BinOp Div (Max (Row ''in_ndx_vol_wt'') (Row ''out_ndx_vol_wt'')) (IntLit 25)"
  let ?pre = "[(''in_avg_wt_cn'', ?e1)]"
  let ?R = "compute_derived zero_out_volume None"
  have h1: "FORMULAS = ?pre @ (''out_avg_wt_cn'', ?e2) # drop 2 FORMULAS"
    by (simp add: FORMULAS_def)
  have h2: "''out_avg_wt_cn'' \<notin> locked_set None"
    by (simp add: locked_set_def)
  have f3: "fl 3 = 3" using fl_of_int [of 3] by simp
  have f36: "fl 36 = 36" using fl_of_int [of 36] by simp
  have st: "run ?pre (locked_set None) zero_out_volume = zero_out_volume(''in_avg_wt_cn'' \<mapsto> PFloat 3)"
    by (simp add: run_Cons run_Nil step_def locked_set_def zero_out_volume_def catch_def f3)
  have h3: "py_eval (run ?pre (locked_set None) zero_out_volume) ?e2 = Inl ZeroDivisionError"
    by (simp only: st) (simp add: zero_out_volume_def)
  have m: "(''wt_bag_non_doc'', ?e3) \<in> set (drop 2 FORMULAS)"
    by (simp add: FORMULAS_def)
  have u: "''wt_bag_non_doc'' \<notin> locked_set None"
    by (simp add: locked_set_def)
  have base: "?R ''in_ndx_vol_wt'' = Some (PInt 750)" "?R ''out_ndx_vol_wt'' = Some (PInt 900)"
    by (simp_all add: compute_derived_def run_frame FORMULAS_def zero_out_volume_def)
  note t = compute_derived_fail_soft [OF h1 h2 h3]
  from t have failing: "?R ''out_avg_wt_cn'' = Some NaN" by blast
  from t have "\<forall>k0 \<in> fst ` set ?pre. ?R k0 = run ?pre (locked_set None) zero_out_volume k0"
    by blast
  then have earlier: "?R ''in_avg_wt_cn'' = Some (PFloat 3)" by (simp add: st)
  from t have "\<forall>(k', e') \<in> set (drop 2 FORMULAS). k' \<notin> locked_set None \<longrightarrow>
      ?R k' = Some (catch (py_eval ?R e'))"
    by blast
  with m u have "?R ''wt_bag_non_doc'' = Some (catch (py_eval ?R ?e3))" by blast
  then have later: "?R ''wt_bag_non_doc'' = Some (PFloat 36)"
    by (simp add: base py_max_def catch_def f36)
  from h3 earlier failing later show ?thesis by blast
qed

section \<open>Which keys the evaluated record holds\<close>

text \<open>
  Claim C2. The locked-key set names fields of the record: the caller supplies a value for
  every key it locks. For every such record and locked-key set, the evaluated record has a
  value under every registry key: a locked key holds exactly the value supplied by the
  caller, and every other registry key holds the value of its formula on the record as it
  stood when the entry was reached, or NaN when the formula failed.
\<close>

theorem compute_derived_registry_keys:
  assumes "(k, e) \<in> set FORMULAS" and "locked_set lk \<subseteq> dom r"
  shows "(\<exists>v. compute_derived r lk k = Some v)
       \<and> compute_derived r lk k =
           (if k \<in> locked_set lk then r k
            else Some (catch (py_eval
                   (run (takeWhile (\<lambda>ke. fst ke \<noteq> k) FORMULAS) (locked_set lk) r) e)))"
proof (cases "k \<in> locked_set lk")
  case True
  then obtain v where "r k = Some v" using assms(2) by auto
  then show ?thesis using True by (simp add: compute_derived_def run_locked)
next
  case False
  let ?pre = "takeWhile (\<lambda>ke. fst ke \<noteq> k) FORMULAS"
  let ?post = "tl (dropWhile (\<lambda>ke. fst ke \<noteq> k) FORMULAS)"
  have sp: "FORMULAS = ?pre @ (k, e) # ?post" and nk: "k \<notin> fst ` set ?post"
    using split_at_key [OF assms(1) distinct_keys] by simp_all
  have "run (?pre @ (k, e) # ?post) (locked_set lk) r k
          = Some (catch (py_eval (run ?pre (locked_set lk) r) e))"
    using False nk by (rule run_at)
  then show ?thesis using False sp by (simp add: compute_derived_def)
qed

text \<open>
  With \<open>packet\<close> locked to 7 the evaluated record holds 7 under \<open>packet\<close>, and the unlocked
  key \<open>in_avg_wt_cn\<close>, whose formula fails on this record, holds NaN.
\<close>

theorem compute_derived_registry_keys_witness:
  "(''packet'', BinOp Div (Max (Row ''in_docs'') (Row ''out_docs'')) (IntLit 15)) \<in> set FORMULAS
   \<and> (''in_avg_wt_cn'', BinOp Div (Row ''in_ndx_vol_wt'') (Row ''in_ndx_out_vol'')) \<in> set FORMULAS
   \<and> locked_set (Some [''packet'']) \<subseteq> dom [''packet'' \<mapsto> PInt 7, ''in_ndx_vol_wt'' \<mapsto> PInt 5]
   \<and> compute_derived [''packet'' \<mapsto> PInt 7, ''in_ndx_vol_wt'' \<mapsto> PInt 5] (Some [''packet''])
        ''packet'' = Some (PInt 7)
   \<and> compute_derived [''packet'' \<mapsto> PInt 7, ''in_ndx_vol_wt'' \<mapsto> PInt 5] (Some [''packet''])
        ''in_avg_wt_cn'' = Some NaN"
proof -
  let ?r = "[''packet'' \<mapsto> PInt 7, ''in_ndx_vol_wt'' \<mapsto> PInt 5]"
  have m1: "(''packet'', BinOp Div (Max (Row ''in_docs'') (Row ''out_docs'')) (IntLit 15)) \<in> set FORMULAS"
    and m2: "(''in_avg_wt_cn'', BinOp Div (Row ''in_ndx_vol_wt'') (Row ''in_ndx_out_vol'')) \<in> set FORMULAS"
    by (simp_all add: FORMULAS_def)
  have d: "locked_set (Some [''packet'']) \<subseteq> dom ?r"
    by (simp add: locked_set_def)
  have "compute_derived ?r (Some [''packet'']) ''packet'' = Some (PInt 7)"
    using compute_derived_registry_keys [OF m1 d] by (simp add: locked_set_def)
  moreover have "compute_derived ?r (Some [''packet'']) ''in_avg_wt_cn'' = Some NaN"
    using compute_derived_registry_keys [OF m2 d]
    by (simp add: FORMULAS_def run_Nil locked_set_def catch_def)
  ultimately show ?thesis using m1 m2 d by blast
qed

text \<open>
  The condition on the locked keys is needed: a locked key for which the caller supplied
  no value is skipped all the same, and stays absent.
\<close>

lemma locked_key_not_supplied:
  "''packet'' \<in> set registry_keys
   \<and> compute_derived Map.empty (Some [''packet'']) ''packet'' = None"
  by (simp add: registry_keys_def FORMULAS_def compute_derived_def locked_set_def run_locked)

lemma run_set_formula: "k \<in> L \<Longrightarrow> run (set_formula k e' forms) L r = run forms L r"
proof (induction forms arbitrary: r)
  case Nil
  then show ?case by (simp add: set_formula_def)
next
  case (Cons a forms)
  obtain k' e where a: "a = (k', e)" by (cases a)
  have "step L r (k', if k' = k then e' else e) = step L r (k', e)"
    using Cons.prems by (simp add: step_def)
  moreover have "set_formula k e' (a # forms) = (k', if k' = k then e' else e) # set_formula k e' forms"
    by (simp add: set_formula_def a)
  ultimately show ?case using Cons a by (simp add: run_Cons)
qed

section \<open>Locked keys\<close>

text \<open>
  Claim C3. Lock fidelity: if the record holds \<open>v\<close> under \<open>k\<close> and \<open>k\<close> is locked, the
  evaluated record holds \<open>v\<close> under \<open>k\<close>, and the formula of \<open>k\<close> is not used at all: the
  result is the same whatever formula the registry has for \<open>k\<close>.
\<close>

theorem lock_fidelity:
  assumes "r k = Some v" and "k \<in> set ks"
  shows "compute_derived r (Some ks) k = Some v
       \<and> run (set_formula k e' FORMULAS) (set ks) r = compute_derived r (Some ks)"
  using assms by (simp add: compute_derived_def locked_set_def run_locked run_set_formula)

theorem lock_fidelity_witness:
  "compute_derived [''per_day_ndx'' \<mapsto> PInt 12] (Some [''per_day_ndx'', ''per_day_dox''])
       ''per_day_ndx'' = Some (PInt 12)
   \<and> run (set_formula ''per_day_ndx'' (IntLit 0) FORMULAS) (set [''per_day_ndx'', ''per_day_dox''])
        [''per_day_ndx'' \<mapsto> PInt 12]
      = compute_derived [''per_day_ndx'' \<mapsto> PInt 12] (Some [''per_day_ndx'', ''per_day_dox''])"
  using lock_fidelity [of "[''per_day_ndx'' \<mapsto> PInt 12]" "''per_day_ndx''" "PInt 12"
      "[''per_day_ndx'', ''per_day_dox'']" "IntLit 0"]
  by simp

section \<open>Fields outside the registry\<close>

text \<open>
  Claim C10. \<open>compute_derived\<close> writes registry keys only: a field that is not a registry
  key, in particular every Base Input Field, has after evaluation the value, or the
  absence, it had before.
\<close>

theorem compute_derived_frame:
  assumes "k \<in> set BASE_INPUT_FIELDS \<or> k \<notin> set registry_keys"
  shows "compute_derived r lk k = r k"
proof -
  have "set BASE_INPUT_FIELDS \<inter> set registry_keys = {}"
    by (simp add: BASE_INPUT_FIELDS_def registry_keys_def FORMULAS_def)
  then have "k \<notin> set registry_keys" using assms by auto
  then show ?thesis
    by (simp add: compute_derived_def registry_keys_def run_frame)
qed

theorem compute_derived_frame_witness:
  "''at'' \<in> set BASE_INPUT_FIELDS
   \<and> compute_derived [''at'' \<mapsto> PInt 20, ''hub_code'' \<mapsto> PStr ''H1''] None ''at'' = Some (PInt 20)"
  using compute_derived_frame [of "''at''" "[''at'' \<mapsto> PInt 20, ''hub_code'' \<mapsto> PStr ''H1'']" None]
  by (simp add: BASE_INPUT_FIELDS_def)

section \<open>Re-evaluation\<close>

text \<open>
  Claim C9. Idempotence: evaluating an already evaluated record again, with no locked keys,
  gives the same record, for every input record (in particular for those that hold all Base
  Input Fields). A stored NaN is recomputed as NaN.
\<close>

theorem compute_derived_idempotent:
  "compute_derived (compute_derived r None) None = compute_derived r None"
  by (simp add: compute_derived_def run_idem registry_ordered)

section \<open>Names that resolve while a formula is evaluated\<close>

text \<open>
  The formulas of the registry load four names only, and each resolves to the record or to
  the helper passed in \<open>safe_globals\<close>.
\<close>

lemma registry_names:
  "(k, e) \<in> set FORMULAS \<Longrightarrow> set (names e) \<subseteq> {''roundup'', ''max'', ''sum'', ''row''}"
  by (auto simp: FORMULAS_def)

lemma resolve_four:
  "resolve ''row'' = Some RowDict" "resolve ''roundup'' = Some FnRoundup"
  "resolve ''max'' = Some FnMax" "resolve ''sum'' = Some FnSum"
  by (simp_all add: resolve_def load_name_def eval_locals_def eval_globals_def safe_globals_def)

text \<open>
  Claim C5 says that \<open>roundup\<close>, \<open>max\<close>, \<open>sum\<close> and \<open>row\<close> are the only identifiers that
  resolve during the evaluation of a formula. \<open>safe_globals\<close> has no \<open>__builtins__\<close> entry, so
  \<open>eval\<close> adds one: the name \<open>__builtins__\<close> resolves, and through it every builtin, for
  instance \<open>abs\<close>.
\<close>

theorem eval_namespace_exposes_builtins:
  "resolve ''__builtins__'' = Some BuiltinsDict
   \<and> resolve ''abs'' = Some (Builtin ''abs'')
   \<and> ''__builtins__'' \<notin> set [''roundup'', ''max'', ''sum'', ''row'']
   \<and> ''abs'' \<notin> set [''roundup'', ''max'', ''sum'', ''row'']"
  by (simp add: resolve_def load_name_def eval_locals_def eval_globals_def safe_globals_def
      builtin_names_def)

section \<open>The ceiling-rounding helper\<close>

lemma pow10_0 [simp]: "pow10 0 = PInt 1"
  by (simp add: pow10_def)

lemma roundup0_float:
  assumes "fl x = x"
  shows "roundup (PFloat x) 0 = Inr (PFloat (of_int \<lceil>x\<rceil>))"
  using assms fl_ceiling [OF assms] by (simp add: roundup_def)

lemma roundup_nan: "roundup NaN d = Inl ValueError"
  by (simp add: roundup_def pow10_def)

lemma roundup_ceiling_fixed:
  assumes "fl x = x"
  shows "roundup (PFloat (of_int \<lceil>x\<rceil>)) 0 = Inr (PFloat (of_int \<lceil>x\<rceil>))"
  using roundup0_float [OF fl_ceiling [OF assms]] by simp

text \<open>
  Claim C7, as amended. At 0 digits the helper computes the ceiling: for every finite float
  \<open>x\<close>, \<open>roundup(x, 0)\<close> is the ceiling of \<open>x\<close>, so it is at least \<open>x\<close>, and it is a fixed point
  of the helper. At other digit counts the product \<open>x * 10^d\<close> and the quotient are floats,
  each rounded, and neither the equation nor the bound is guaranteed.
\<close>

theorem roundup_zero_digits:
  assumes "fl x = x"
  shows "roundup (PFloat x) 0 = Inr (PFloat (of_int \<lceil>x\<rceil>))
       \<and> x \<le> of_int \<lceil>x\<rceil>
       \<and> roundup (PFloat (of_int \<lceil>x\<rceil>)) 0 = Inr (PFloat (of_int \<lceil>x\<rceil>))"
  using roundup0_float [OF assms] roundup_ceiling_fixed [OF assms] by simp

lemma fl_2401: "fl (2401 / 100) = 6758214190822851 / 281474976710656"
  by (simp add: fl_eval [of 4] round_even_def Let_def)

text \<open>\<open>roundup(24.01) == 25\<close>, \<open>roundup(25.0) == 25\<close> and \<open>roundup(0.0) == 0\<close>.\<close>

theorem roundup_zero_digits_witness:
  "fl (2401 / 100) = 6758214190822851 / 281474976710656
   \<and> roundup (PFloat (6758214190822851 / 281474976710656)) 0 = Inr (PFloat 25)
   \<and> roundup (PFloat 25) 0 = Inr (PFloat 25)
   \<and> roundup (PFloat 0) 0 = Inr (PFloat 0)"
proof -
  have a: "fl (6758214190822851 / 281474976710656) = 6758214190822851 / 281474976710656"
    using fl_idem [of "2401 / 100"] by (simp only: fl_2401)
  have b: "fl 25 = 25" using fl_of_int [of 25] by simp
  have c: "fl 0 = 0" by simp
  from roundup_zero_digits [OF a] roundup_zero_digits [OF b] roundup_zero_digits [OF c] fl_2401
  show ?thesis by simp
qed

text \<open>
  At 2 digits the result can be below the argument: for the float \<open>0.6900000000000001\<close>
  the product with 100 rounds to 69.0, and the helper returns the float \<open>0.69\<close>, while
  the ceiling of the exact product is 70.
\<close>

theorem roundup_two_digits_counterexample:
  "fl (6214967485771285 / 9007199254740992) = 6214967485771285 / 9007199254740992
   \<and> roundup (PFloat (6214967485771285 / 9007199254740992)) 2
        = Inr (PFloat (1553741871442821 / 2251799813685248))
   \<and> (1553741871442821 / 2251799813685248 :: rat) < 6214967485771285 / 9007199254740992
   \<and> \<lceil>(6214967485771285 / 9007199254740992 :: rat) * 10 ^ 2\<rceil> = 70"
proof -
  have a: "fl (6214967485771285 / 9007199254740992) = 6214967485771285 / 9007199254740992"
    by (simp add: fl_eval [of "-1"] round_even_def Let_def)
  have h: "fl 100 = 100" using fl_of_int [of 100] by simp
  have p: "fl (155374187144282125 / 2251799813685248) = 69"
    by (simp add: fl_eval [of 6] round_even_def Let_def)
  have q: "fl (69 / 100) = 1553741871442821 / 2251799813685248"
    by (simp add: fl_eval [of "-1"] round_even_def Let_def)
  have "roundup (PFloat (6214967485771285 / 9007199254740992)) 2
        = Inr (PFloat (1553741871442821 / 2251799813685248))"
    by (simp add: roundup_def pow10_def h p q)
  with a show ?thesis by simp
qed

section \<open>Where the helper is applied\<close>

text \<open>
  In an evaluated record every unlocked registry key equals its formula on that record, and
  every other field is as the caller left it.
\<close>

lemma cd_at:
  assumes "(k, e) \<in> set FORMULAS" "k \<notin> locked_set lk"
  shows "compute_derived r lk k = Some (catch (py_eval (compute_derived r lk) e))"
  unfolding compute_derived_def using registry_ordered assms by (rule run_fixpoint)

lemma cd_keep: "k \<notin> fst ` set FORMULAS \<Longrightarrow> compute_derived r lk k = r k"
  unfolding compute_derived_def by (rule run_frame)

lemma truediv_result:
  "py_truediv x y = Inr v \<Longrightarrow> v = NaN \<or> (\<exists>z. v = PFloat (fl z))"
  by (cases x; cases y) (auto split: if_splits)

lemma roundup_entries:
  "(k, Roundup a d) \<in> set FORMULAS \<Longrightarrow> d = 0 \<and> (\<exists>x y. a = BinOp Div x y)"
  by (auto simp: FORMULAS_def)

lemma roundup_fields:
  "map fst (filter (\<lambda>(k, e). case e of Roundup a d \<Rightarrow> True | _ \<Rightarrow> False) FORMULAS) =
    [''out_per_day_docs'', ''out_per_day_non_docs'', ''out_per_day_air'',
     ''out_per_day_surface'', ''out_per_day_ndx_out_vol'', ''out_per_day_ndx_vol_wt'',
     ''in_per_day_docs'', ''in_per_day_non_docs'', ''in_per_day_air'', ''in_per_day_surface'',
     ''in_per_day_ndx_out_vol'', ''in_per_day_ndx_vol_wt''] @ manpower_units"
  by (simp add: FORMULAS_def manpower_units_def)

lemma div_eval_result:
  "py_eval R (BinOp Div x y) = Inr v \<Longrightarrow> v = NaN \<or> (\<exists>z. v = PFloat (fl z))"
  by (auto split: sum.splits dest: truediv_result)

text \<open>
  Claim C6, as amended. The helper is applied, at 0 digits, by the twelve fields
  \<open>out_per_day_*\<close> and \<open>in_per_day_*\<close> and by the ten fields \<open>manpower_in_units_*\<close>: these are
  the entries whose formula is a call of \<open>roundup\<close>. Each of them, when not locked, holds
  the ceiling of the float its argument evaluates to, or NaN when the argument fails or is
  NaN; the stored value is a whole number, not below the argument, and a fixed point of the
  helper.
\<close>

theorem rounded_fields:
  assumes "(k, Roundup a d) \<in> set FORMULAS" and "k \<notin> locked_set lk"
  shows "d = 0
       \<and> compute_derived r lk k =
           Some (case py_eval (compute_derived r lk) a of
                   Inr (PFloat q) \<Rightarrow> PFloat (of_int \<lceil>q\<rceil>) | _ \<Rightarrow> NaN)
       \<and> (case compute_derived r lk k of
             Some v \<Rightarrow> catch (roundup v 0) = v | None \<Rightarrow> False)"
proof -
  let ?R = "compute_derived r lk"
  from roundup_entries [OF assms(1)] obtain x y where d: "d = 0" and a: "a = BinOp Div x y"
    by blast
  have val: "?R k = Some (catch (py_eval ?R (Roundup a 0)))"
    using cd_at [OF assms] d by simp
  show ?thesis
  proof (cases "py_eval ?R a")
    case (Inl err)
    then show ?thesis using val d by (simp add: catch_def roundup_nan)
  next
    case (Inr v)
    from div_eval_result [OF Inr [unfolded a]] consider "v = NaN" | z where "v = PFloat (fl z)"
      by blast
    then show ?thesis
    proof cases
      case 1
      then show ?thesis using val d Inr by (simp add: catch_def roundup_nan)
    next
      case 2
      have dbl: "fl (fl z) = fl z" by simp
      have "roundup v 0 = Inr (PFloat (of_int \<lceil>fl z\<rceil>))"
        unfolding 2 using dbl by (rule roundup0_float)
      moreover have "roundup (PFloat (of_int \<lceil>fl z\<rceil>)) 0 = Inr (PFloat (of_int \<lceil>fl z\<rceil>))"
        using dbl by (rule roundup_ceiling_fixed)
      ultimately show ?thesis using val d Inr 2 by (simp add: catch_def)
    qed
  qed
qed

lemma scenario_A_base:
  "compute_derived scenario_A lk ''out_docs'' = Some (PInt 100)"
  "compute_derived scenario_A lk ''in_docs'' = Some (PInt 50)"
  by (simp_all add: cd_keep FORMULAS_def scenario_A_def)

theorem rounded_fields_witness:
  "(''out_per_day_docs'', Roundup (BinOp Div (Row ''out_docs'') (IntLit 25)) 0) \<in> set FORMULAS
   \<and> ''out_per_day_docs'' \<notin> locked_set None
   \<and> compute_derived scenario_A None ''out_per_day_docs'' = Some (PFloat 4)"
proof -
  have m: "(''out_per_day_docs'', Roundup (BinOp Div (Row ''out_docs'') (IntLit 25)) 0) \<in> set FORMULAS"
    by (simp add: FORMULAS_def)
  have u: "''out_per_day_docs'' \<notin> locked_set None" by (simp add: locked_set_def)
  have f: "fl 4 = 4" using fl_of_int [of 4] by simp
  have "py_eval (compute_derived scenario_A None) (BinOp Div (Row ''out_docs'') (IntLit 25))
          = Inr (PFloat 4)"
    by (simp add: scenario_A_base f)
  with rounded_fields [OF m u, of scenario_A] m u show ?thesis by simp
qed

text \<open>
  The fields \<open>per_day_packet\<close>, \<open>per_day_bag_doc\<close>, \<open>per_day_bag_non_doc\<close> and \<open>per_day_air\<close>
  are per-day figures too, and their formulas do not call the helper. In Scenario A
  \<open>per_day_packet\<close> is the float \<open>0.26666666666666666\<close>, which the helper would turn
  into 1.
\<close>

theorem per_day_packet_counterexample:
  "(''per_day_packet'', BinOp Div (Row ''packet'') (IntLit 25)) \<in> set FORMULAS
   \<and> compute_derived scenario_A None ''per_day_packet''
        = Some (PFloat (4803839602528529 / 18014398509481984))
   \<and> roundup (PFloat (4803839602528529 / 18014398509481984)) 0 = Inr (PFloat 1)"
proof -
  let ?R = "compute_derived scenario_A None"
  have u: "\<And>k. k \<notin> locked_set None" by (simp add: locked_set_def)
  have m1: "(''packet'', BinOp Div (Max (Row ''in_docs'') (Row ''out_docs'')) (IntLit 15)) \<in> set FORMULAS"
    by (simp add: FORMULAS_def)
  have m2: "(''per_day_packet'', BinOp Div (Row ''packet'') (IntLit 25)) \<in> set FORMULAS"
    by (simp add: FORMULAS_def)
  have f1: "fl (20 / 3) = 7505999378950827 / 1125899906842624"
    by (simp add: fl_eval [of 2] round_even_def Let_def)
  have f25: "fl 25 = 25" using fl_of_int [of 25] by simp
  have f2: "fl (7505999378950827 / 28147497671065600) = 4803839602528529 / 18014398509481984"
    by (simp add: fl_eval [of "-2"] round_even_def Let_def)
  have f3: "fl (4803839602528529 / 18014398509481984) = 4803839602528529 / 18014398509481984"
    using fl_idem [of "7505999378950827 / 28147497671065600"] by (simp only: f2)
  have p: "?R ''packet'' = Some (PFloat (7505999378950827 / 1125899906842624))"
    using cd_at [OF m1 u, of scenario_A] by (simp add: scenario_A_base py_max_def catch_def f1)
  have "?R ''per_day_packet'' = Some (PFloat (4803839602528529 / 18014398509481984))"
    using cd_at [OF m2 u, of scenario_A] by (simp add: p catch_def f25 f2)
  moreover have "roundup (PFloat (4803839602528529 / 18014398509481984)) 0 = Inr (PFloat 1)"
    using roundup0_float [OF f3] by simp
  ultimately show ?thesis using m2 by simp
qed

section \<open>NaN propagation\<close>

text \<open>
  An operand that is NaN makes every arithmetic operator, \<open>sum\<close> and \<open>roundup\<close> yield NaN
  or raise, and \<open>max\<close> does so when the NaN is its first argument.
\<close>

lemma catch_Inl [simp]: "catch (Inl err) = NaN"
  by (simp add: catch_def)

lemma catch_Inr [simp]: "catch (Inr v) = v"
  by (simp add: catch_def)

lemma binop_nan_left: "catch (apply_binop opr NaN y) = NaN"
  by (cases opr; cases y) simp_all

lemma binop_nan_right: "catch (apply_binop opr x NaN) = NaN"
  by (cases opr; cases x) simp_all

lemma max_nan_left: "catch (py_max NaN y) = NaN"
  by (cases y) (simp_all add: py_max_def)

lemma add_nan_left: "catch (py_add NaN v) = NaN"
  by (cases v) simp_all

lemma add_nan_right: "catch (py_add acc NaN) = NaN"
  by (cases acc) simp_all

lemma sum_from_nan: "catch (py_sum_from NaN vs) = NaN"
proof (induction vs)
  case Nil
  then show ?case by simp
next
  case (Cons v vs)
  show ?case
  proof (cases "py_add NaN v")
    case (Inl err)
    then show ?thesis by simp
  next
    case (Inr w)
    then have "w = NaN" using add_nan_left [of v] by simp
    then show ?thesis using Inr Cons.IH by simp
  qed
qed

lemma sum_from_has_nan: "NaN \<in> set vs \<Longrightarrow> catch (py_sum_from acc vs) = NaN"
proof (induction vs arbitrary: acc)
  case Nil
  then show ?case by simp
next
  case (Cons v vs)
  show ?case
  proof (cases "py_add acc v")
    case (Inl err)
    then show ?thesis by simp
  next
    case (Inr w)
    show ?thesis
    proof (cases "v = NaN")
      case True
      then have "w = NaN" using add_nan_right [of acc] Inr by simp
      then show ?thesis using Inr sum_from_nan by simp
    next
      case False
      then have "NaN \<in> set vs" using Cons.prems by auto
      then show ?thesis using Inr Cons.IH by simp
    qed
  qed
qed

lemma sequence_raises:
  "x \<in> set es \<Longrightarrow> f x = Inl err \<Longrightarrow> \<exists>err'. sequence (map f es) = Inl err'"
proof (induction es)
  case Nil
  then show ?case by simp
next
  case (Cons a es)
  show ?case
  proof (cases "f a")
    case (Inl e1)
    then show ?thesis by simp
  next
    case (Inr v)
    then have "x \<in> set es" using Cons.prems by auto
    from Cons.IH [OF this Cons.prems(2)] show ?thesis using Inr by auto
  qed
qed

lemma sequence_has_nan:
  "x \<in> set es \<Longrightarrow> f x = Inr NaN \<Longrightarrow> sequence (map f es) = Inr vs \<Longrightarrow> NaN \<in> set vs"
proof (induction es arbitrary: vs)
  case Nil
  then show ?case by simp
next
  case (Cons a es)
  show ?case
  proof (cases "f a")
    case (Inl e1)
    then show ?thesis using Cons.prems by simp
  next
    case (Inr v)
    then obtain ws where ws: "sequence (map f es) = Inr ws" "vs = v # ws"
      using Cons.prems(3) by (auto split: sum.splits)
    show ?thesis
    proof (cases "x = a")
      case True
      then show ?thesis using Inr Cons.prems(2) ws by simp
    next
      case False
      then have "x \<in> set es" using Cons.prems(1) by simp
      from Cons.IH [OF this Cons.prems(2) ws(1)] show ?thesis using ws by simp
    qed
  qed
qed

lemma reads_missing_raises:
  assumes "\<And>k. k \<in> set M \<Longrightarrow> r k = None"
  shows "reads_missing M e \<Longrightarrow> \<exists>err. py_eval r e = Inl err"
proof (induction e)
  case (Row k)
  then show ?case using assms by simp
next
  case (BinOp opr a b)
  then show ?case by (auto split: sum.splits)
next
  case (Max a b)
  then show ?case by (auto split: sum.splits)
next
  case (SumL es)
  then obtain x where x: "x \<in> set es" "reads_missing M x" by (auto simp: list_ex_iff)
  from SumL.IH [OF x] obtain err where "py_eval r x = Inl err" by blast
  from sequence_raises [where f = "py_eval r", OF x(1) this] show ?case by auto
next
  case (Roundup a d)
  then show ?case by auto
qed simp_all

lemma catch_nan_cases: "catch res = NaN \<longleftrightarrow> (\<exists>err. res = Inl err) \<or> res = Inr NaN"
  by (cases res) simp_all

lemma poisoned_nan:
  assumes "\<And>k. k \<in> set M \<Longrightarrow> r k = None" and "\<And>k. k \<in> set N \<Longrightarrow> r k = Some NaN"
  shows "poisoned M N e \<Longrightarrow> catch (py_eval r e) = NaN"
proof (induction e)
  case (Row k)
  then show ?case using assms by auto
next
  case (BinOp opr a b)
  show ?case
  proof (cases "py_eval r a")
    case (Inl err)
    then show ?thesis by simp
  next
    case xa: (Inr x)
    show ?thesis
    proof (cases "py_eval r b")
      case (Inl err)
      then show ?thesis using xa by simp
    next
      case yb: (Inr y)
      have "x = NaN \<or> y = NaN" using BinOp xa yb by auto
      then show ?thesis using xa yb binop_nan_left binop_nan_right by auto
    qed
  qed
next
  case (Max a b)
  show ?case
  proof (cases "py_eval r a")
    case (Inl err)
    then show ?thesis by simp
  next
    case xa: (Inr x)
    show ?thesis
    proof (cases "py_eval r b")
      case (Inl err)
      then show ?thesis using xa by simp
    next
      case yb: (Inr y)
      have "\<not> reads_missing M b" using reads_missing_raises [of M r b] assms(1) yb by auto
      then have "x = NaN" using Max xa by auto
      then show ?thesis using xa yb max_nan_left by simp
    qed
  qed
next
  case (SumL es)
  then obtain x where x: "x \<in> set es" "poisoned M N x" by (auto simp: list_ex_iff)
  from SumL.IH [OF x] have bad: "catch (py_eval r x) = NaN" .
  show ?case
  proof (cases "sequence (map (py_eval r) es)")
    case (Inl err)
    then show ?thesis by simp
  next
    case (Inr vs)
    from bad have "py_eval r x = Inr NaN"
      using sequence_raises [where f = "py_eval r", OF x(1)] Inr by (auto simp: catch_nan_cases)
    from sequence_has_nan [where f = "py_eval r", OF x(1) this Inr] have "NaN \<in> set vs" .
    then show ?thesis using Inr by (simp add: py_sum_def sum_from_has_nan)
  qed
next
  case (Roundup a d)
  then have "catch (py_eval r a) = NaN" by simp
  then show ?case by (auto simp: catch_nan_cases roundup_nan)
qed simp_all

lemma nan_keys_sound:
  assumes "\<And>f. f \<in> set M \<Longrightarrow> r f = None" and "\<And>f. f \<in> set N \<Longrightarrow> r f = Some NaN"
    and "k \<in> set (nan_keys fs M N)"
  shows "run fs {} r k = Some NaN"
  using assms
proof (induction fs arbitrary: r M N)
  case Nil
  then show ?case by (simp add: run_Nil)
next
  case (Cons a fs)
  obtain k0 e0 where a: "a = (k0, e0)" by (cases a)
  let ?r' = "step {} r (k0, e0)"
  let ?N' = "if poisoned M N e0 then k0 # N else removeAll k0 N"
  have r': "?r' = r(k0 \<mapsto> catch (py_eval r e0))" by (simp add: step_writes)
  have m: "\<And>f. f \<in> set (removeAll k0 M) \<Longrightarrow> ?r' f = None"
    using Cons.prems(1) by (simp add: r')
  have n: "\<And>f. f \<in> set ?N' \<Longrightarrow> ?r' f = Some NaN"
  proof -
    fix f assume f: "f \<in> set ?N'"
    show "?r' f = Some NaN"
    proof (cases "poisoned M N e0")
      case True
      then have "catch (py_eval r e0) = NaN"
        using poisoned_nan [of M r N e0] Cons.prems(1,2) by blast
      then show ?thesis using f True Cons.prems(2) by (auto simp: r')
    next
      case False
      then show ?thesis using f Cons.prems(2) by (auto simp: r')
    qed
  qed
  have "k \<in> set (nan_keys fs (removeAll k0 M) ?N')"
    using Cons.prems(3) a by simp
  from Cons.IH [OF m n this] show ?case by (simp add: run_Cons a)
qed

text \<open>
  What the code does propagate: when a field \<open>b\<close> is removed from the record, unlocked
  evaluation stores NaN under every key of \<open>nan_keys FORMULAS [b] []\<close>, the keys whose formula
  reads \<open>b\<close> and the keys whose formula reads an earlier such key anywhere but in the second
  argument of \<open>max\<close>.
\<close>

lemma nan_propagation:
  assumes "b \<in> set BASE_INPUT_FIELDS" and "k \<in> set (nan_keys FORMULAS [b] [])"
  shows "compute_derived (r(b := None)) None k = Some NaN"
proof -
  have "run FORMULAS {} (r(b := None)) k = Some NaN"
    using _ _ assms(2) by (rule nan_keys_sound) simp_all
  then show ?thesis by (simp add: compute_derived_def locked_set_def)
qed

lemma nan_keys_in_non_docs: "nan_keys FORMULAS [''in_non_docs''] [] = [''in_per_day_non_docs'']"
  by (simp add: FORMULAS_def)

lemma nan_keys_out_non_docs:
  "nan_keys FORMULAS [''out_non_docs''] [] =
    [''manpower_without_sorter'', ''manpower_with_sorter'',
     ''manpower_in_units_exception_han_unit'', ''manpower_in_units_skidder_unit'',
     ''manpower_in_units_with_no_sorter_manual_sorting_units'',
     ''manpower_in_units_with_sorter_non_cony'', ''manpower_in_units_with_sorter_sorter_unit'',
     ''total'', ''skidder_unit'', ''exception_han_unit'', ''manual_sorting_units'',
     ''with_sorter_non_cony'', ''with_sorter_sorter_unit'', ''per_day_ndx'',
     ''out_per_day_non_docs'']"
  by (simp add: FORMULAS_def)

lemma nan_propagation_example:
  "''out_non_docs'' \<in> set BASE_INPUT_FIELDS
   \<and> ''manpower_with_sorter'' \<in> set (nan_keys FORMULAS [''out_non_docs''] [])
   \<and> compute_derived (scenario_A(''out_non_docs'' := None)) None ''manpower_with_sorter''
        = Some NaN"
proof -
  have b: "''out_non_docs'' \<in> set BASE_INPUT_FIELDS" by (simp add: BASE_INPUT_FIELDS_def)
  have k: "''manpower_with_sorter'' \<in> set (nan_keys FORMULAS [''out_non_docs''] [])"
    by (simp add: nan_keys_out_non_docs)
  from nan_propagation [OF b k, of scenario_A] b k show ?thesis by simp
qed

text \<open>
  Claim C4. NaN propagation: removing a Base Input Field that a key requires, directly or
  through other keys, makes that key NaN. The code breaks this where the NaN reaches \<open>max\<close>
  as its second argument: \<open>max(a, b)\<close> keeps \<open>a\<close> unless \<open>b > a\<close>, and NaN compares false. On
  Scenario A without \<open>in_non_docs\<close> the field \<open>in_per_day_non_docs\<close> is NaN, and
  \<open>per_day_ndx\<close>, which reads it, is 8.0 as on the complete record.
\<close>

theorem max_drops_nan_counterexample:
  "''in_non_docs'' \<in> set BASE_INPUT_FIELDS
   \<and> (''in_per_day_non_docs'', Roundup (BinOp Div (Row ''in_non_docs'') (IntLit 25)) 0) \<in> set FORMULAS
   \<and> (''per_day_ndx'', Max (Row ''out_per_day_non_docs'') (Row ''in_per_day_non_docs'')) \<in> set FORMULAS
   \<and> compute_derived (scenario_A(''in_non_docs'' := None)) None ''in_per_day_non_docs'' = Some NaN
   \<and> compute_derived (scenario_A(''in_non_docs'' := None)) None ''per_day_ndx'' = Some (PFloat 8)
   \<and> compute_derived scenario_A None ''per_day_ndx'' = Some (PFloat 8)"
proof -
  let ?r = "scenario_A(''in_non_docs'' := None)"
  let ?R = "compute_derived ?r None"
  let ?C = "compute_derived scenario_A None"
  have u: "\<And>k. k \<notin> locked_set None" by (simp add: locked_set_def)
  have b: "''in_non_docs'' \<in> set BASE_INPUT_FIELDS" by (simp add: BASE_INPUT_FIELDS_def)
  have m1: "(''in_per_day_non_docs'', Roundup (BinOp Div (Row ''in_non_docs'') (IntLit 25)) 0) \<in> set FORMULAS"
    by (simp add: FORMULAS_def)
  have m2: "(''out_per_day_non_docs'', Roundup (BinOp Div (Row ''out_non_docs'') (IntLit 25)) 0) \<in> set FORMULAS"
    by (simp add: FORMULAS_def)
  have m3: "(''per_day_ndx'', Max (Row ''out_per_day_non_docs'') (Row ''in_per_day_non_docs'')) \<in> set FORMULAS"
    by (simp add: FORMULAS_def)
  have base: "?R ''in_non_docs'' = None" "?R ''out_non_docs'' = Some (PInt 200)"
    by (simp_all add: cd_keep FORMULAS_def scenario_A_def)
  have cbase: "?C ''in_non_docs'' = Some (PInt 150)" "?C ''out_non_docs'' = Some (PInt 200)"
    by (simp_all add: cd_keep FORMULAS_def scenario_A_def)
  have f8: "fl 8 = 8" using fl_of_int [of 8] by simp
  have f6: "fl 6 = 6" using fl_of_int [of 6] by simp
  have r8: "roundup (PFloat 8) 0 = Inr (PFloat 8)" using roundup0_float [OF f8] by simp
  have r6: "roundup (PFloat 6) 0 = Inr (PFloat 6)" using roundup0_float [OF f6] by simp
  have i: "?R ''in_per_day_non_docs'' = Some NaN"
    using cd_at [OF m1 u, of ?r] by (simp add: base)
  have o: "?R ''out_per_day_non_docs'' = Some (PFloat 8)"
    using cd_at [OF m2 u, of ?r] by (simp add: base f8 r8)
  have n: "?R ''per_day_ndx'' = Some (PFloat 8)"
    using cd_at [OF m3 u, of ?r] by (simp add: i o py_max_def)
  have ci: "?C ''in_per_day_non_docs'' = Some (PFloat 6)"
    using cd_at [OF m1 u, of scenario_A] by (simp add: cbase f6 r6)
  have co: "?C ''out_per_day_non_docs'' = Some (PFloat 8)"
    using cd_at [OF m2 u, of scenario_A] by (simp add: cbase f8 r8)
  have cn: "?C ''per_day_ndx'' = Some (PFloat 8)"
    using cd_at [OF m3 u, of scenario_A] by (simp add: ci co py_max_def)
  from b m1 m3 i n cn show ?thesis by blast
qed

section \<open>The two staffing totals\<close>

text \<open>Sums of whole-number floats below \<open>2^53\<close> are exact.\<close>

lemma sum_from_ints:
  assumes "\<And>n. n \<in> set ns \<Longrightarrow> \<bar>n\<bar> \<le> 2 ^ 48"
    and "\<bar>a\<bar> + int (length ns) * 2 ^ 48 \<le> 2 ^ 53"
  shows "py_sum_from (PFloat (of_int a)) (map (\<lambda>n. PFloat (of_int n)) ns)
           = Inr (PFloat (of_int (a + sum_list ns)))"
  using assms
proof (induction ns arbitrary: a)
  case Nil
  then show ?case by simp
next
  case (Cons n ns)
  have n: "\<bar>n\<bar> \<le> 2 ^ 48" using Cons.prems(1) by simp
  have b: "\<bar>a\<bar> + (int (length ns) + 1) * 2 ^ 48 \<le> 2 ^ 53"
    using Cons.prems(2) by (simp add: algebra_simps)
  have "\<bar>a + n\<bar> \<le> \<bar>a\<bar> + \<bar>n\<bar>" by simp
  then have an: "\<bar>a + n\<bar> + int (length ns) * 2 ^ 48 \<le> 2 ^ 53"
    using n b by (simp add: algebra_simps)
  then have "\<bar>a + n\<bar> \<le> 2 ^ 53"
    by (smt (verit) mult_nonneg_nonneg of_nat_0_le_iff zero_le_numeral zero_le_power)
  then have "fl (of_int (a + n)) = of_int (a + n)" by (rule fl_of_int)
  then have st: "py_add (PFloat (of_int a)) (PFloat (of_int n)) = Inr (PFloat (of_int (a + n)))"
    by simp
  have "py_sum_from (PFloat (of_int (a + n))) (map (\<lambda>n. PFloat (of_int n)) ns)
          = Inr (PFloat (of_int (a + n + sum_list ns)))"
    using Cons.prems(1) an by (intro Cons.IH) simp_all
  then show ?case using st by (simp add: add.assoc)
qed

lemma sum_ints:
  assumes "\<And>n. n \<in> set ns \<Longrightarrow> \<bar>n\<bar> \<le> 2 ^ 48" and "length ns \<le> 16" and "ns \<noteq> []"
  shows "py_sum (map (\<lambda>n. PFloat (of_int n)) ns) = Inr (PFloat (of_int (sum_list ns)))"
proof -
  obtain n rest where ns: "ns = n # rest" using assms(3) by (cases ns) auto
  have n: "\<bar>n\<bar> \<le> 2 ^ 48" using assms(1) ns by simp
  then have "\<bar>n\<bar> \<le> 2 ^ 53" by simp
  then have f: "fl (of_int n) = of_int n" by (rule fl_of_int)
  have "int (length rest) \<le> 15" using assms(2) ns by simp
  then have "int (length rest) * 2 ^ 48 \<le> 15 * 2 ^ 48" by simp
  then have b: "\<bar>n\<bar> + int (length rest) * 2 ^ 48 \<le> 2 ^ 53" using n by simp
  have "py_sum_from (PFloat (of_int n)) (map (\<lambda>n. PFloat (of_int n)) rest)
          = Inr (PFloat (of_int (n + sum_list rest)))"
    using assms(1) b unfolding ns by (intro sum_from_ints) simp_all
  then show ?thesis by (simp add: py_sum_def ns f)
qed

lemma abs_sum_list_le:
  fixes ns :: "int list"
  assumes "\<And>n. n \<in> set ns \<Longrightarrow> \<bar>n\<bar> \<le> B"
  shows "\<bar>sum_list ns\<bar> \<le> int (length ns) * B"
  using assms
proof (induction ns)
  case Nil
  then show ?case by simp
next
  case (Cons n ns)
  have "\<bar>n\<bar> \<le> B" "\<bar>sum_list ns\<bar> \<le> int (length ns) * B"
    using Cons by simp_all
  then show ?case by (simp add: algebra_simps)
qed

lemma sequence_values: "sequence (map (\<lambda>x. Inr (g x)) xs) = Inr (map g xs)"
  by (induction xs) simp_all

lemma eval_sum_rows:
  assumes "\<And>k. k \<in> set ks \<Longrightarrow> \<exists>n. R k = Some (PFloat (of_int n)) \<and> \<bar>n\<bar> \<le> 2 ^ 48"
    and "length ks \<le> 16" and "ks \<noteq> []"
  shows "py_eval R (SumL (map Row ks)) = Inr (PFloat (of_int (sum_list (map (count_of R) ks))))"
proof -
  have v: "\<And>k. k \<in> set ks \<Longrightarrow> R k = Some (PFloat (of_int (count_of R k))) \<and> \<bar>count_of R k\<bar> \<le> 2 ^ 48"
  proof -
    fix k assume "k \<in> set ks"
    from assms(1) [OF this] obtain n where "R k = Some (PFloat (of_int n))" "\<bar>n\<bar> \<le> 2 ^ 48"
      by blast
    then show "R k = Some (PFloat (of_int (count_of R k))) \<and> \<bar>count_of R k\<bar> \<le> 2 ^ 48"
      by (simp add: count_of_def)
  qed
  have "map (py_eval R) (map Row ks) = map (\<lambda>k. Inr (PFloat (of_int (count_of R k)))) ks"
    using v by simp
  then have "sequence (map (py_eval R) (map Row ks))
               = Inr (map (\<lambda>k. PFloat (of_int (count_of R k))) ks)"
    by (simp only: sequence_values)
  moreover have "py_sum (map (\<lambda>n. PFloat (of_int n)) (map (count_of R) ks))
               = Inr (PFloat (of_int (sum_list (map (count_of R) ks))))"
    using v assms(2,3) by (intro sum_ints) auto
  ultimately show ?thesis by (simp add: comp_def)
qed

text \<open>A field that no formula reads and no entry writes does not influence the evaluation.\<close>

lemma run_unread_field:
  assumes "\<And>k e. (k, e) \<in> set forms \<Longrightarrow> k \<noteq> f \<and> f \<notin> set (refs e)"
  shows "run forms L (r(f := s)) = (run forms L r)(f := s)"
  using assms
proof (induction forms arbitrary: r)
  case Nil
  then show ?case by (simp add: run_Nil)
next
  case (Cons a forms)
  obtain k e where a: "a = (k, e)" by (cases a)
  have kf: "k \<noteq> f" and fr: "f \<notin> set (refs e)" using Cons.prems a by auto
  have "py_eval (r(f := s)) e = py_eval r e"
    using fr by (intro eval_cong) auto
  then have st: "step L (r(f := s)) (k, e) = (step L r (k, e))(f := s)"
    using kf by (auto simp: step_def)
  have "run (a # forms) L (r(f := s)) = run forms L (step L (r(f := s)) (k, e))"
    by (simp only: run_Cons a)
  also have "\<dots> = run forms L ((step L r (k, e))(f := s))"
    by (simp only: st)
  also have "\<dots> = (run forms L (step L r (k, e)))(f := s)"
  proof (rule Cons.IH)
    fix k' e' assume "(k', e') \<in> set forms"
    then have "(k', e') \<in> set (a # forms)" by simp
    then show "k' \<noteq> f \<and> f \<notin> set (refs e')" by (rule Cons.prems)
  qed
  finally show ?case by (simp only: run_Cons a)
qed

lemma sorter_unread: "(k, e) \<in> set FORMULAS \<Longrightarrow> k \<noteq> ''sorter'' \<and> ''sorter'' \<notin> set (refs e)"
  by (auto simp: FORMULAS_def)

text \<open>
  Claim C8. Both staffing totals are computed whenever they are not locked, whatever the
  \<open>sorter\<close> field holds: no formula reads \<open>sorter\<close>. \<open>manpower_with_sorter\<close> is the sum of
  the ten manpower-in-units intermediates minus
  \<open>manpower_in_units_with_no_sorter_manual_sorting_units\<close>, and \<open>manpower_without_sorter\<close> is
  that sum minus \<open>manpower_in_units_with_sorter_sorter_unit\<close> and minus
  \<open>manpower_in_units_with_sorter_non_cony\<close>. When the ten intermediates hold whole numbers
  (below \<open>2^48\<close> in magnitude, so that no float addition rounds) the totals are exactly
  these integers.
\<close>

theorem staffing_totals:
  assumes "''manpower_with_sorter'' \<notin> locked_set lk"
    and "''manpower_without_sorter'' \<notin> locked_set lk"
    and "\<And>k. k \<in> set manpower_units \<Longrightarrow>
           \<exists>n. compute_derived r lk k = Some (PFloat (of_int n)) \<and> \<bar>n\<bar> \<le> 2 ^ 48"
  shows "compute_derived r lk ''manpower_with_sorter'' =
           Some (PFloat (of_int (sum_list (map (count_of (compute_derived r lk)) manpower_units)
             - count_of (compute_derived r lk)
                 ''manpower_in_units_with_no_sorter_manual_sorting_units'')))
       \<and> compute_derived r lk ''manpower_without_sorter'' =
           Some (PFloat (of_int (sum_list (map (count_of (compute_derived r lk)) manpower_units)
             - count_of (compute_derived r lk) ''manpower_in_units_with_sorter_sorter_unit''
             - count_of (compute_derived r lk) ''manpower_in_units_with_sorter_non_cony'')))
       \<and> compute_derived r lk ''manpower_with_sorter'' =
           Some (catch (py_eval (compute_derived r lk)
             (BinOp Sub (SumL (map Row manpower_units))
                (Row ''manpower_in_units_with_no_sorter_manual_sorting_units''))))
       \<and> compute_derived r lk ''manpower_without_sorter'' =
           Some (catch (py_eval (compute_derived r lk)
             (BinOp Sub (BinOp Sub (SumL (map Row manpower_units))
                (Row ''manpower_in_units_with_sorter_sorter_unit''))
                (Row ''manpower_in_units_with_sorter_non_cony''))))
       \<and> compute_derived (r(''sorter'' := s)) lk = (compute_derived r lk)(''sorter'' := s)"
proof -
  let ?R = "compute_derived r lk"
  let ?T = "sum_list (map (count_of ?R) manpower_units)"
  let ?man = "''manpower_in_units_with_no_sorter_manual_sorting_units''"
  let ?su = "''manpower_in_units_with_sorter_sorter_unit''"
  let ?nc = "''manpower_in_units_with_sorter_non_cony''"
  have m1: "(''manpower_with_sorter'', BinOp Sub (SumL (map Row manpower_units)) (Row ?man))
              \<in> set FORMULAS"
    by (simp add: FORMULAS_def manpower_units_def)
  have m2: "(''manpower_without_sorter'',
              BinOp Sub (BinOp Sub (SumL (map Row manpower_units)) (Row ?su)) (Row ?nc))
              \<in> set FORMULAS"
    by (simp add: FORMULAS_def manpower_units_def)
  have val: "\<And>k. k \<in> set manpower_units \<Longrightarrow>
      ?R k = Some (PFloat (of_int (count_of ?R k))) \<and> \<bar>count_of ?R k\<bar> \<le> 2 ^ 48"
  proof -
    fix k assume "k \<in> set manpower_units"
    from assms(3) [OF this] obtain n where "?R k = Some (PFloat (of_int n))" "\<bar>n\<bar> \<le> 2 ^ 48"
      by blast
    then show "?R k = Some (PFloat (of_int (count_of ?R k))) \<and> \<bar>count_of ?R k\<bar> \<le> 2 ^ 48"
      by (simp add: count_of_def)
  qed
  have tot: "py_eval ?R (SumL (map Row manpower_units)) = Inr (PFloat (of_int ?T))"
    using assms(3) by (intro eval_sum_rows) (simp_all add: manpower_units_def)
  have "\<bar>?T\<bar> \<le> int (length (map (count_of ?R) manpower_units)) * 2 ^ 48"
    using val by (intro abs_sum_list_le) auto
  then have "\<bar>?T\<bar> \<le> 10 * 2 ^ 48"
    by (simp add: manpower_units_def)
  have man: "?man \<in> set manpower_units" and su: "?su \<in> set manpower_units"
    and nc: "?nc \<in> set manpower_units"
    by (simp_all add: manpower_units_def)
  note vm = val [OF man] and vs = val [OF su] and vn = val [OF nc]
  have b1: "\<bar>?T - count_of ?R ?man\<bar> \<le> 2 ^ 53"
    using \<open>\<bar>?T\<bar> \<le> 10 * 2 ^ 48\<close> vm by simp linarith
  have b2: "\<bar>?T - count_of ?R ?su\<bar> \<le> 2 ^ 53"
    using \<open>\<bar>?T\<bar> \<le> 10 * 2 ^ 48\<close> vs by simp linarith
  have b3: "\<bar>?T - count_of ?R ?su - count_of ?R ?nc\<bar> \<le> 2 ^ 53"
    using \<open>\<bar>?T\<bar> \<le> 10 * 2 ^ 48\<close> vs vn by simp linarith
  note f1 = fl_of_int [OF b1] and f2 = fl_of_int [OF b2] and f3 = fl_of_int [OF b3]
  have w: "?R ''manpower_with_sorter'' = Some (PFloat (of_int (?T - count_of ?R ?man)))"
    using cd_at [OF m1 assms(1), of r] tot vm f1 by simp
  have wo: "?R ''manpower_without_sorter'' =
      Some (PFloat (of_int (?T - count_of ?R ?su - count_of ?R ?nc)))"
    using cd_at [OF m2 assms(2), of r] tot vs vn f2 f3 by simp
  have "compute_derived (r(''sorter'' := s)) lk = ?R(''sorter'' := s)"
    unfolding compute_derived_def using sorter_unread by (rule run_unread_field)
  with w wo cd_at [OF m1 assms(1), of r] cd_at [OF m2 assms(2), of r] show ?thesis
    by (simp only: simp_thms)
qed

theorem staffing_totals_witness:
  "''manpower_with_sorter'' \<notin> locked_set (Some manpower_units)
   \<and> ''manpower_without_sorter'' \<notin> locked_set (Some manpower_units)
   \<and> compute_derived (\<lambda>k. if k \<in> set manpower_units then Some (PFloat 3) else None)
        (Some manpower_units) ''manpower_with_sorter'' = Some (PFloat 27)
   \<and> compute_derived (\<lambda>k. if k \<in> set manpower_units then Some (PFloat 3) else None)
        (Some manpower_units) ''manpower_without_sorter'' = Some (PFloat 24)"
proof -
  let ?r = "\<lambda>k. if k \<in> set manpower_units then Some (PFloat 3) else None"
  let ?R = "compute_derived ?r (Some manpower_units)"
  have h1: "''manpower_with_sorter'' \<notin> locked_set (Some manpower_units)"
    and h2: "''manpower_without_sorter'' \<notin> locked_set (Some manpower_units)"
    by (simp_all add: locked_set_def manpower_units_def)
  have v: "\<And>k. k \<in> set manpower_units \<Longrightarrow> ?R k = Some (PFloat 3)"
    by (simp add: compute_derived_def locked_set_def run_locked)
  have h3: "\<And>k. k \<in> set manpower_units \<Longrightarrow>
      \<exists>n. ?R k = Some (PFloat (of_int n)) \<and> \<bar>n\<bar> \<le> 2 ^ 48"
    using v by (intro exI [of _ 3]) simp
  have c: "\<And>k. k \<in> set manpower_units \<Longrightarrow> count_of ?R k = 3"
    using v by (simp add: count_of_def)
  have "map (count_of ?R) manpower_units = map (\<lambda>k. 3) manpower_units"
    using c by (intro map_cong) simp_all
  then have t: "sum_list (map (count_of ?R) manpower_units) = 30"
    by (simp add: manpower_units_def)
  have c1: "count_of ?R ''manpower_in_units_with_no_sorter_manual_sorting_units'' = 3"
    and c2: "count_of ?R ''manpower_in_units_with_sorter_sorter_unit'' = 3"
    and c3: "count_of ?R ''manpower_in_units_with_sorter_non_cony'' = 3"
    by (rule c, simp add: manpower_units_def)+
  from staffing_totals [OF h1 h2 h3, where s = None]
  have "?R ''manpower_with_sorter'' = Some (PFloat (of_int (30 - 3)))"
    and "?R ''manpower_without_sorter'' = Some (PFloat (of_int (30 - 3 - 3)))"
    by (simp_all only: t c1 c2 c3)
  with h1 h2 show ?thesis by simp
qed

end
